theory Spec2Isabelle
  imports Main "HOL-Library.Word"
begin

unbundle bit_operations_syntax

section \<open>Values exchanged with the inference stream\<close>

text \<open>
  The bridge of \<^verbatim>\<open>src/runtime/index.py\<close> builds Python dictionaries, serialises them
  with \<^verbatim>\<open>json.dumps\<close> and hands them to the stream; in the other direction it parses
  each frame with \<^verbatim>\<open>json.loads\<close>. Both directions are modelled on the JSON value itself.
  An object is an association list in insertion order (what \<^verbatim>\<open>list(d.keys())\<close> shows);
  a lookup takes the first binding of a key, so a list with distinct keys stands for the
  dictionary \<^verbatim>\<open>json.loads\<close> returns.
\<close>

datatype json =
    JNull
  | JBool bool
  | JInt int
  | JDec int nat  \<comment> \<open>a float written as a decimal: \<open>JDec m k\<close> is \<open>m / 10 ^ k\<close>\<close>
  | JStr string
  | JArr "json list"
  | JObj "(string \<times> json) list"

type_synonym byte = "8 word"

text \<open>
  The subclasses of \<^verbatim>\<open>Exception\<close> that the modelled code can meet. Cancellation
  (\<^verbatim>\<open>asyncio.CancelledError\<close>, not an \<^verbatim>\<open>Exception\<close>) is kept apart: it reaches
  the draining task only, as an input of its loop.
\<close>

datatype exc =
    StopAsyncIteration
  | TypeError
  | AttributeError
  | KeyError
  | ValueError
  | Binascii_Error
  | Exception string

subsection \<open>The Python operations used on parsed JSON\<close>

fun truthy :: "json \<Rightarrow> bool" where
  "truthy JNull = False"
| "truthy (JBool b) = b"
| "truthy (JInt n) = (n \<noteq> 0)"
| "truthy (JDec m k) = (m \<noteq> 0)"
| "truthy (JStr s) = (s \<noteq> [])"
| "truthy (JArr xs) = (xs \<noteq> [])"
| "truthy (JObj kvs) = (kvs \<noteq> [])"

fun is_substring :: "string \<Rightarrow> string \<Rightarrow> bool" where
  "is_substring xs [] = (xs = [])"
| "is_substring xs (y # ys) = (take (length xs) (y # ys) = xs \<or> is_substring xs ys)"

text \<open>\<^verbatim>\<open>k in x\<close> for a string \<open>k\<close>: key membership, element membership, substring test,
  and \<^verbatim>\<open>TypeError\<close> on a value that is not a container.\<close>

fun py_in :: "string \<Rightarrow> json \<Rightarrow> exc + bool" where
  "py_in k (JObj kvs) = Inr (k \<in> set (map fst kvs))"
| "py_in k (JArr xs) = Inr (JStr k \<in> set xs)"
| "py_in k (JStr s) = Inr (is_substring k s)"
| "py_in k _ = Inl TypeError"

text \<open>\<^verbatim>\<open>x[k]\<close> for a string \<open>k\<close>.\<close>

fun py_getitem :: "json \<Rightarrow> string \<Rightarrow> exc + json" where
  "py_getitem (JObj kvs) k = (case map_of kvs k of None \<Rightarrow> Inl KeyError | Some v \<Rightarrow> Inr v)"
| "py_getitem _ k = Inl TypeError"

text \<open>\<^verbatim>\<open>x.get(k, d)\<close>: only a dictionary has the method.\<close>

fun py_get :: "json \<Rightarrow> string \<Rightarrow> json \<Rightarrow> exc + json" where
  "py_get (JObj kvs) k d = (case map_of kvs k of None \<Rightarrow> Inr d | Some v \<Rightarrow> Inr v)"
| "py_get _ k d = Inl AttributeError"

text \<open>\<^verbatim>\<open>list(event.keys())[0] if event else 'unknown'\<close>.\<close>

fun event_type_of :: "json \<Rightarrow> exc + string" where
  "event_type_of (JObj []) = Inr ''unknown''"
| "event_type_of (JObj (kv # kvs)) = Inr (fst kv)"
| "event_type_of j = (if truthy j then Inl AttributeError else Inr ''unknown'')"

subsection \<open>Base64\<close>

text \<open>
  \<^verbatim>\<open>base64.b64encode\<close> and \<^verbatim>\<open>base64.b64decode\<close> belong to the Python standard library.
  The encoder is the standard alphabet with \<open>=\<close> padding. The decoder follows
  \<^verbatim>\<open>binascii.a2b_base64\<close> in its default (non-strict) mode: characters outside the
  alphabet are skipped, a pad sequence that completes a quad ends the input, and leftover
  data characters are an error; a string with a non-ASCII character is rejected before.
\<close>

definition b64_alphabet :: string where
  "b64_alphabet = ''ABCDEFGHIJKLMNOPQRSTUVWXYZabcdefghijklmnopqrstuvwxyz0123456789+/''"

definition b64_char :: "byte \<Rightarrow> char" where
  "b64_char v = b64_alphabet ! unat v"

fun b64encode :: "byte list \<Rightarrow> string" where
  "b64encode [] = []"
| "b64encode [a] =
     [b64_char (drop_bit 2 a), b64_char (push_bit 4 (a AND 3)), CHR ''='', CHR ''='']"
| "b64encode [a, b] =
     [b64_char (drop_bit 2 a), b64_char (push_bit 4 (a AND 3) OR drop_bit 4 b),
      b64_char (push_bit 2 (b AND 15)), CHR ''='']"
| "b64encode (a # b # c # rest) =
     [b64_char (drop_bit 2 a), b64_char (push_bit 4 (a AND 3) OR drop_bit 4 b),
      b64_char (push_bit 2 (b AND 15) OR drop_bit 6 c), b64_char (c AND 63)] @ b64encode rest"

fun index_of :: "char \<Rightarrow> string \<Rightarrow> nat option" where
  "index_of c [] = None"
| "index_of c (x # xs) = (if c = x then Some 0 else map_option Suc (index_of c xs))"

definition b64_value :: "char \<Rightarrow> byte option" where
  "b64_value c = map_option of_nat (index_of c b64_alphabet)"

text \<open>The decoding loop: position in the quad, bits left over, pads seen, bytes written.\<close>

fun a2b_base64 :: "string \<Rightarrow> nat \<Rightarrow> byte \<Rightarrow> nat \<Rightarrow> byte list \<Rightarrow> exc + byte list" where
  "a2b_base64 [] quad_pos leftchar pads out =
     (if quad_pos \<noteq> 0 then Inl Binascii_Error else Inr out)"
| "a2b_base64 (ch # rest) quad_pos leftchar pads out =
     (if ch = CHR ''='' then
        (if quad_pos \<ge> 2 \<and> quad_pos + (pads + 1) \<ge> 4 then Inr out
         else a2b_base64 rest quad_pos leftchar (if quad_pos \<ge> 2 then pads + 1 else pads) out)
      else
        (case b64_value ch of
           None \<Rightarrow> a2b_base64 rest quad_pos leftchar pads out
         | Some v \<Rightarrow>
             (if quad_pos = 0 then a2b_base64 rest 1 v 0 out
              else if quad_pos = 1 then
                a2b_base64 rest 2 (v AND 15) 0 (out @ [push_bit 2 leftchar OR drop_bit 4 v])
              else if quad_pos = 2 then
                a2b_base64 rest 3 (v AND 3) 0 (out @ [push_bit 4 leftchar OR drop_bit 2 v])
              else
                a2b_base64 rest 0 0 0 (out @ [push_bit 6 leftchar OR v]))))"

definition b64decode :: "string \<Rightarrow> exc + byte list" where
  "b64decode s =
     (if \<exists>c \<in> set s. of_char c \<ge> (128 :: nat) then Inl ValueError
      else a2b_base64 s 0 0 0 [])"

text \<open>What \<^verbatim>\<open>base64.b64decode\<close> does with an arbitrary (truthy) JSON value: only a string
  is accepted.\<close>

fun b64decode_value :: "json \<Rightarrow> exc + byte list" where
  "b64decode_value (JStr s) = b64decode s"
| "b64decode_value _ = Inl TypeError"

section \<open>The session and what it does to the outside\<close>

datatype task = Task_running | Task_done

datatype log_entry =
    Log_info string
  | Log_text json json  \<comment> \<open>the line \<^verbatim>\<open>[role] text\<close> of a text output\<close>
  | Log_error string exc

text \<open>
  The first seven fields are the attributes \<^verbatim>\<open>NovaSonicBridge.__init__\<close> sets.
  \<open>task_role\<close> is the local variable \<^verbatim>\<open>role\<close> of the draining task, kept while the task
  is suspended in its receive. \<open>yields\<close> counts the pauses (\<^verbatim>\<open>asyncio.sleep\<close>) the
  session's methods have made. The other fields record what the object did to its
  collaborators, in call order: how many times the stream was opened, every event handed to
  \<^verbatim>\<open>stream.input_stream.send\<close> (also a call that then raises), how many times the input
  stream was closed, how many times the draining task was cancelled, every chunk given to the
  audio sink, and the log.
\<close>

record bridge =
  stream :: "unit option"
  is_active :: bool
  prompt_name :: string
  content_name :: string
  audio_content_name :: string
  audio_chunks_sent :: int
  response_task :: "task option"
  task_role :: json
  yields :: nat
  opened :: nat
  sent :: "json list"
  closed :: nat
  cancelled :: nat
  sink_calls :: "byte list list"
  logged :: "log_entry list"

text \<open>
  What one turn of the loop of \<^verbatim>\<open>_process_responses\<close> gets from
  \<^verbatim>\<open>await self.stream.await_output()\<close> and \<^verbatim>\<open>await output[1].receive()\<close>: the
  cancellation of the task, an exception, a result without payload, a payload that is not
  UTF-8 encoded JSON, or a parsed JSON value.
\<close>

datatype recv =
    Recv_cancelled
  | Recv_raises exc
  | Recv_no_payload
  | Recv_undecodable
  | Recv_json json

text \<open>The audio sink (\<^verbatim>\<open>send_callback\<close>): it returns or raises.\<close>

type_synonym sink = "byte list \<Rightarrow> exc option"

text \<open>
  The configuration read from the process environment, and what surrounds the session. The
  inference SDK: whether the \<open>n\<close>-th call of each stream operation (counted from 0 over the
  life of the session) returns or raises. The audio sink given to \<^verbatim>\<open>start\<close>. The frames
  that reach the draining task while a method of the session pauses in
  \<^verbatim>\<open>asyncio.sleep\<close>, for the \<open>n\<close>-th pause (counted from 0 over the life of the session).
\<close>

record env =
  voice_id :: string
  system_prompt :: string
  open_result :: "nat \<Rightarrow> exc option"
  send_result :: "nat \<Rightarrow> exc option"
  close_result :: "nat \<Rightarrow> exc option"
  callback :: sink
  arrivals :: "nat \<Rightarrow> recv list"

text \<open>\<^verbatim>\<open>__init__\<close>; the three identifiers are the fresh UUIDs.\<close>

definition init :: "string \<Rightarrow> string \<Rightarrow> string \<Rightarrow> bridge" where
  "init p c a =
     \<lparr>stream = None, is_active = False, prompt_name = p, content_name = c,
      audio_content_name = a, audio_chunks_sent = 0, response_task = None,
      task_role = JNull, yields = 0, opened = 0, sent = [], closed = 0, cancelled = 0, sink_calls = [], logged = []\<rparr>"

definition log_info :: "string \<Rightarrow> bridge \<Rightarrow> bridge" where
  "log_info m s = s\<lparr>logged := logged s @ [Log_info m]\<rparr>"

definition log_error :: "string \<Rightarrow> exc \<Rightarrow> bridge \<Rightarrow> bridge" where
  "log_error m e s = s\<lparr>logged := logged s @ [Log_error m e]\<rparr>"

subsection \<open>Outbound events\<close>

definition event :: "string \<Rightarrow> json \<Rightarrow> json" where
  "event tag body = JObj [(''event'', JObj [(tag, body)])]"

definition session_start_event :: json where
  "session_start_event =
     event ''sessionStart''
       (JObj [(''inferenceConfiguration'',
          JObj [(''maxTokens'', JInt 1024), (''topP'', JDec 9 1), (''temperature'', JDec 7 1)])])"

definition tool_schema :: string where
  \<open>tool_schema =
     ''{'' @ [CHR 0x0A] @ replicate 48 CHR '' '' @ ''"type": "object",''
     @ [CHR 0x0A] @ replicate 48 CHR '' '' @ ''"properties": {},''
     @ [CHR 0x0A] @ replicate 48 CHR '' '' @ ''"required": []''
     @ [CHR 0x0A] @ replicate 44 CHR '' '' @ ''}''\<close>

definition prompt_start_event :: "env \<Rightarrow> bridge \<Rightarrow> json" where
  "prompt_start_event cfg s =
     event ''promptStart''
       (JObj [(''promptName'', JStr (prompt_name s)),
          (''textOutputConfiguration'', JObj [(''mediaType'', JStr ''text/plain'')]),
          (''audioOutputConfiguration'',
             JObj [(''mediaType'', JStr ''audio/lpcm''),
                   (''sampleRateHertz'', JInt 16000),
                   (''sampleSizeBits'', JInt 16),
                   (''channelCount'', JInt 1),
                   (''voiceId'', JStr (voice_id cfg)),
                   (''encoding'', JStr ''base64''),
                   (''audioType'', JStr ''SPEECH'')]),
          (''toolUseOutputConfiguration'', JObj [(''mediaType'', JStr ''application/json'')]),
          (''toolConfiguration'',
             JObj [(''tools'',
               JArr [JObj [(''toolSpec'',
                 JObj [(''name'', JStr ''getDateTool''),
                       (''description'', JStr ''get information about the current day''),
                       (''inputSchema'', JObj [(''json'', JStr tool_schema)])])]])])])"

definition system_content_start_event :: "bridge \<Rightarrow> json" where
  "system_content_start_event s =
     event ''contentStart''
       (JObj [(''promptName'', JStr (prompt_name s)),
              (''contentName'', JStr (content_name s)),
              (''type'', JStr ''TEXT''),
              (''interactive'', JBool False),
              (''role'', JStr ''SYSTEM''),
              (''textInputConfiguration'', JObj [(''mediaType'', JStr ''text/plain'')])])"

definition text_input_event :: "env \<Rightarrow> bridge \<Rightarrow> json" where
  "text_input_event cfg s =
     event ''textInput''
       (JObj [(''promptName'', JStr (prompt_name s)),
              (''contentName'', JStr (content_name s)),
              (''content'', JStr (system_prompt cfg))])"

definition system_content_end_event :: "bridge \<Rightarrow> json" where
  "system_content_end_event s =
     event ''contentEnd''
       (JObj [(''promptName'', JStr (prompt_name s)),
              (''contentName'', JStr (content_name s))])"

definition audio_content_start_event :: "bridge \<Rightarrow> json" where
  "audio_content_start_event s =
     event ''contentStart''
       (JObj [(''promptName'', JStr (prompt_name s)),
              (''contentName'', JStr (audio_content_name s)),
              (''type'', JStr ''AUDIO''),
              (''interactive'', JBool True),
              (''role'', JStr ''USER''),
              (''audioInputConfiguration'',
                 JObj [(''mediaType'', JStr ''audio/lpcm''),
                       (''sampleRateHertz'', JInt 16000),
                       (''sampleSizeBits'', JInt 16),
                       (''channelCount'', JInt 1),
                       (''audioType'', JStr ''SPEECH''),
                       (''encoding'', JStr ''base64'')])])"

definition audio_input_event :: "bridge \<Rightarrow> byte list \<Rightarrow> json" where
  "audio_input_event s pcm_bytes =
     event ''audioInput''
       (JObj [(''promptName'', JStr (prompt_name s)),
              (''contentName'', JStr (audio_content_name s)),
              (''content'', JStr (b64encode pcm_bytes))])"

definition audio_content_end_event :: "bridge \<Rightarrow> json" where
  "audio_content_end_event s =
     event ''contentEnd''
       (JObj [(''promptName'', JStr (prompt_name s)),
              (''contentName'', JStr (audio_content_name s))])"

definition prompt_end_event :: "bridge \<Rightarrow> json" where
  "prompt_end_event s = event ''promptEnd'' (JObj [(''promptName'', JStr (prompt_name s))])"

definition session_end_event :: json where
  "session_end_event = event ''sessionEnd'' (JObj [])"

text \<open>The handshake of \<^verbatim>\<open>start\<close> and the shutdown sequence of \<^verbatim>\<open>stop\<close>, in source order.\<close>

definition handshake_events :: "env \<Rightarrow> bridge \<Rightarrow> json list" where
  "handshake_events cfg s =
     [session_start_event, prompt_start_event cfg s, system_content_start_event s,
      text_input_event cfg s, system_content_end_event s, audio_content_start_event s]"

definition shutdown_events :: "bridge \<Rightarrow> json list" where
  "shutdown_events s = [audio_content_end_event s, prompt_end_event s, session_end_event]"

section \<open>The draining task\<close>

text \<open>The three branches on the event, each from the state after the \<^verbatim>\<open>Event:\<close> log line;
  the result is the exception raised or the new value of the local \<^verbatim>\<open>role\<close>.\<close>

definition on_content_start :: "json \<Rightarrow> bridge \<Rightarrow> (exc + json) \<times> bridge" where
  "on_content_start ev s =
     (case py_getitem ev ''contentStart'' of
        Inl e \<Rightarrow> (Inl e, s)
      | Inr content_start \<Rightarrow>
          (case py_get content_start ''role'' (JStr []) of
             Inl e \<Rightarrow> (Inl e, s)
           | Inr r \<Rightarrow> (Inr r, s)))"

definition on_text_output :: "json \<Rightarrow> json \<Rightarrow> bridge \<Rightarrow> (exc + json) \<times> bridge" where
  "on_text_output role ev s =
     (case py_getitem ev ''textOutput'' of
        Inl e \<Rightarrow> (Inl e, s)
      | Inr text_output \<Rightarrow>
          (case py_get text_output ''content'' (JStr []) of
             Inl e \<Rightarrow> (Inl e, s)
           | Inr text_content \<Rightarrow>
               (case py_get text_output ''role'' role of
                  Inl e \<Rightarrow> (Inl e, s)
                | Inr text_role \<Rightarrow>
                    (if truthy text_content
                     then (Inr role, s\<lparr>logged := logged s @ [Log_text text_role text_content]\<rparr>)
                     else (Inr role, s)))))"

definition on_audio_output :: "sink \<Rightarrow> json \<Rightarrow> json \<Rightarrow> bridge \<Rightarrow> (exc + json) \<times> bridge" where
  "on_audio_output send_callback role ev s =
     (case py_getitem ev ''audioOutput'' of
        Inl e \<Rightarrow> (Inl e, s)
      | Inr audio_output \<Rightarrow>
          (case py_get audio_output ''content'' (JStr []) of
             Inl e \<Rightarrow> (Inl e, s)
           | Inr audio_content \<Rightarrow>
               (if truthy audio_content then
                  (case b64decode_value audio_content of
                     Inl e \<Rightarrow> (Inl e, s)
                   | Inr audio_bytes \<Rightarrow>
                       (let s1 = s\<lparr>sink_calls := sink_calls s @ [audio_bytes]\<rparr> in
                        case send_callback audio_bytes of
                          Some e \<Rightarrow> (Inl e, s1)
                        | None \<Rightarrow> (Inr role, s1)))
                else (Inr role, s))))"

text \<open>The dispatch on \<^verbatim>\<open>event\<close> (the \<^verbatim>\<open>if\<close>/\<^verbatim>\<open>elif\<close> chain).\<close>

definition dispatch :: "sink \<Rightarrow> json \<Rightarrow> json \<Rightarrow> bridge \<Rightarrow> (exc + json) \<times> bridge" where
  "dispatch send_callback role ev s =
     (case py_in ''contentStart'' ev of
        Inl e \<Rightarrow> (Inl e, s)
      | Inr True \<Rightarrow> on_content_start ev s
      | Inr False \<Rightarrow>
          (case py_in ''textOutput'' ev of
             Inl e \<Rightarrow> (Inl e, s)
           | Inr True \<Rightarrow> on_text_output role ev s
           | Inr False \<Rightarrow>
               (case py_in ''audioOutput'' ev of
                  Inl e \<Rightarrow> (Inl e, s)
                | Inr True \<Rightarrow> on_audio_output send_callback role ev s
                | Inr False \<Rightarrow> (Inr role, s))))"

text \<open>The body of the loop from \<^verbatim>\<open>json_data\<close> on.\<close>

definition handle_json :: "sink \<Rightarrow> json \<Rightarrow> json \<Rightarrow> bridge \<Rightarrow> (exc + json) \<times> bridge" where
  "handle_json send_callback role json_data s =
     (case py_in ''event'' json_data of
        Inl e \<Rightarrow> (Inl e, s)
      | Inr False \<Rightarrow> (Inr role, s)
      | Inr True \<Rightarrow>
          (case py_getitem json_data ''event'' of
             Inl e \<Rightarrow> (Inl e, s)
           | Inr ev \<Rightarrow>
               (case event_type_of ev of
                  Inl e \<Rightarrow> (Inl e, s)
                | Inr event_type \<Rightarrow>
                    dispatch send_callback role ev
                      (if event_type \<noteq> ''audioOutput''
                       then log_info (''Event: '' @ event_type) s else s))))"

text \<open>One pass of the loop body from the receive on: it raises (and the loop is left), or
  the loop goes on with a new value of \<^verbatim>\<open>role\<close>.\<close>

datatype loop_exit = Awaiting json | Loop_ended | Raised_cancelled | Raised exc

definition on_receive :: "sink \<Rightarrow> json \<Rightarrow> recv \<Rightarrow> bridge \<Rightarrow> (loop_exit + json) \<times> bridge" where
  "on_receive send_callback role r s =
     (case r of
        Recv_cancelled \<Rightarrow> (Inl Raised_cancelled, s)
      | Recv_raises e \<Rightarrow> (Inl (Raised e), log_error ''Error in response processor: '' e s)
      | Recv_no_payload \<Rightarrow> (Inr role, s)
      | Recv_undecodable \<Rightarrow> (Inl (Raised ValueError), s)
      | Recv_json json_data \<Rightarrow>
          (case handle_json send_callback role json_data s of
             (Inl e, s') \<Rightarrow> (Inl (Raised e), s')
           | (Inr role', s') \<Rightarrow> (Inr role', s')))"

text \<open>
  The \<^verbatim>\<open>while self.is_active\<close> loop from its test on, for the frames the task receives
  before it is suspended again. It is left waiting for a frame that has not come yet (with
  the value of \<^verbatim>\<open>role\<close> at that point), because its condition is false, or because
  something is raised inside it.
\<close>

fun drain_loop :: "sink \<Rightarrow> json \<Rightarrow> recv list \<Rightarrow> bridge \<Rightarrow> loop_exit \<times> bridge" where
  "drain_loop send_callback role [] s =
     (if is_active s then (Awaiting role, s) else (Loop_ended, s))"
| "drain_loop send_callback role (r # rs) s =
     (if \<not> is_active s then (Loop_ended, s)
      else
        (case on_receive send_callback role r s of
           (Inl x, s') \<Rightarrow> (x, s')
         | (Inr role', s') \<Rightarrow> drain_loop send_callback role' rs s'))"

text \<open>
  The same for a task that is suspended in the receive: it has passed the test of the loop
  already, so the first frame that comes is dispatched whatever the flag is by then, and the
  test is made after it.
\<close>

fun resume_loop :: "sink \<Rightarrow> json \<Rightarrow> recv list \<Rightarrow> bridge \<Rightarrow> loop_exit \<times> bridge" where
  "resume_loop send_callback role [] s = (Awaiting role, s)"
| "resume_loop send_callback role (r # rs) s =
     (case on_receive send_callback role r s of
        (Inl x, s') \<Rightarrow> (x, s')
      | (Inr role', s') \<Rightarrow> drain_loop send_callback role' rs s')"

text \<open>The \<^verbatim>\<open>finally\<close> clause, after which the task is done.\<close>

definition task_finished :: "bridge \<Rightarrow> task \<times> bridge" where
  "task_finished s = (Task_done, s\<lparr>is_active := False, response_task := Some Task_done\<rparr>)"

text \<open>The handlers around the loop. No exception leaves the task; the result says whether it
  is still waiting for a frame or done.\<close>

definition after_loop :: "loop_exit \<Rightarrow> bridge \<Rightarrow> task \<times> bridge" where
  "after_loop x s =
     (case x of
        Awaiting role \<Rightarrow> (Task_running, s)
      | Loop_ended \<Rightarrow> task_finished s
      | Raised_cancelled \<Rightarrow> task_finished s
      | Raised e \<Rightarrow>
          (if e = StopAsyncIteration then task_finished s
           else task_finished (log_error ''Fatal error in response processor: '' e s)))"

text \<open>The coroutine entered at the test of its loop with the given \<^verbatim>\<open>role\<close>.\<close>

definition task_body :: "sink \<Rightarrow> json \<Rightarrow> recv list \<Rightarrow> bridge \<Rightarrow> task \<times> bridge" where
  "task_body send_callback role rs s =
     (case drain_loop send_callback role rs s of (x, s') \<Rightarrow> after_loop x s')"

text \<open>\<^verbatim>\<open>_process_responses\<close> from its first line: \<^verbatim>\<open>role = None\<close>.\<close>

definition process_responses :: "sink \<Rightarrow> recv list \<Rightarrow> bridge \<Rightarrow> task \<times> bridge" where
  "process_responses send_callback rs s = task_body send_callback JNull rs s"

text \<open>
  A turn of the session's own task, created by \<^verbatim>\<open>start\<close>: if it is not done it is
  suspended in its receive, gets the given frames, and is suspended again or ends.
\<close>

definition task_turn :: "sink \<Rightarrow> recv list \<Rightarrow> bridge \<Rightarrow> bridge" where
  "task_turn send_callback rs s =
     (case response_task s of
        Some Task_running \<Rightarrow>
          (case resume_loop send_callback (task_role s) rs s of
             (Awaiting role, s') \<Rightarrow> s'\<lparr>task_role := role\<rparr>
           | (x, s') \<Rightarrow> snd (after_loop x s'))
      | _ \<Rightarrow> s)"

section \<open>The methods of the bridge\<close>

text \<open>
  A coroutine is a function from the state before the call to the exception it raises, if
  any, and the state after it. Where a method pauses in \<^verbatim>\<open>asyncio.sleep\<close> the draining
  task takes a turn with the frames that have arrived. The awaits of the SDK's own
  \<^verbatim>\<open>send\<close> and \<^verbatim>\<open>close\<close> are taken as one step each.
\<close>

text \<open>\<^verbatim>\<open>_send\<close>: guarded by the stream handle and the active flag; a failing send is logged,
  clears the flag and is raised again.\<close>

definition send_event :: "env \<Rightarrow> json \<Rightarrow> bridge \<Rightarrow> exc option \<times> bridge" where
  "send_event cfg ev s =
     (if stream s \<noteq> None \<and> is_active s then
        (let s1 = s\<lparr>sent := sent s @ [ev]\<rparr> in
         case send_result cfg (length (sent s)) of
           None \<Rightarrow> (None, s1)
         | Some e \<Rightarrow>
             (Some e, (log_error ''Error sending to Nova Sonic: '' e s1)\<lparr>is_active := False\<rparr>))
      else (None, s))"

text \<open>\<^verbatim>\<open>await asyncio.sleep(...)\<close>: the draining task runs meanwhile.\<close>

definition sleep :: "env \<Rightarrow> bridge \<Rightarrow> bridge" where
  "sleep cfg s = task_turn (callback cfg) (arrivals cfg (yields s)) (s\<lparr>yields := yields s + 1\<rparr>)"

text \<open>Consecutive \<^verbatim>\<open>await self._send(...)\<close> statements with a pause between one and the
  next, as in \<^verbatim>\<open>start\<close> and \<^verbatim>\<open>stop\<close>: the first exception ends the run.\<close>

fun send_events :: "env \<Rightarrow> json list \<Rightarrow> bridge \<Rightarrow> exc option \<times> bridge" where
  "send_events cfg [] s = (None, s)"
| "send_events cfg [ev] s = send_event cfg ev s"
| "send_events cfg (ev # ev' # evs) s =
     (case send_event cfg ev s of
        (None, s') \<Rightarrow> send_events cfg (ev' # evs) (sleep cfg s')
      | (Some e, s') \<Rightarrow> (Some e, s'))"

text \<open>The handler of \<^verbatim>\<open>start\<close>: log, clear the flag, raise again.\<close>

definition start_failed :: "exc \<Rightarrow> bridge \<Rightarrow> exc option \<times> bridge" where
  "start_failed e s =
     (Some e, (log_error ''Failed to start Nova Sonic session: '' e s)\<lparr>is_active := False\<rparr>)"

definition start :: "env \<Rightarrow> bridge \<Rightarrow> exc option \<times> bridge" where
  "start cfg s =
     (let s0 = (log_info ''Connecting to Nova Sonic...'' s)\<lparr>opened := opened s + 1\<rparr> in
      case open_result cfg (opened s) of
        Some e \<Rightarrow> start_failed e s0
      | None \<Rightarrow>
          (let s1 = (log_info ''Stream connected'' (s0\<lparr>stream := Some (), is_active := True\<rparr>))
                      \<lparr>response_task := Some Task_running, task_role := JNull\<rparr> in
           case send_events cfg (handshake_events cfg s1) (sleep cfg s1) of
             (Some e, s2) \<Rightarrow> start_failed e s2
           | (None, s2) \<Rightarrow> (None, log_info ''Nova Sonic ready for audio'' s2)))"

definition send_audio :: "env \<Rightarrow> byte list \<Rightarrow> bridge \<Rightarrow> exc option \<times> bridge" where
  "send_audio cfg pcm_bytes s =
     (if \<not> is_active s then (None, s)
      else
        (let s1 = s\<lparr>audio_chunks_sent := audio_chunks_sent s + 1\<rparr> in
         send_event cfg (audio_input_event s1 pcm_bytes) s1))"

text \<open>\<^verbatim>\<open>await self.stream.input_stream.close()\<close>.\<close>

definition close_input :: "env \<Rightarrow> bridge \<Rightarrow> exc option \<times> bridge" where
  "close_input cfg s =
     (case stream s of
        None \<Rightarrow> (Some AttributeError, s)
      | Some h \<Rightarrow> (close_result cfg (closed s), s\<lparr>closed := closed s + 1\<rparr>))"

text \<open>The end of \<^verbatim>\<open>stop\<close>: a task that is not done is cancelled and awaited. The
  cancelled task ends through its own handlers; the flag they clear is already clear here.
  A task that has left its loop during the pauses of \<^verbatim>\<open>stop\<close> is done and is not
  cancelled.\<close>

definition cancel_task :: "bridge \<Rightarrow> bridge" where
  "cancel_task s =
     (case response_task s of
        Some Task_running \<Rightarrow> s\<lparr>cancelled := cancelled s + 1, response_task := Some Task_done\<rparr>
      | _ \<Rightarrow> s)"

definition stop :: "env \<Rightarrow> bridge \<Rightarrow> exc option \<times> bridge" where
  "stop cfg s =
     (if \<not> is_active s then (None, s)
      else
        (let s1 = s\<lparr>is_active := False\<rparr>;
             s2 = (case send_events cfg (shutdown_events s1) s1 of
                     (Some e, s') \<Rightarrow> log_error ''Error closing Nova Sonic session: '' e s'
                   | (None, s') \<Rightarrow>
                       (case close_input cfg s' of
                          (Some e, s'') \<Rightarrow> log_error ''Error closing Nova Sonic session: '' e s''
                        | (None, s'') \<Rightarrow> s''))
         in (None, cancel_task s2)))"

section \<open>Sessions as the program produces them\<close>

text \<open>
  A session is what \<^verbatim>\<open>__init__\<close> builds, followed by calls of its methods and, between
  two calls, by turns of its draining task with the frames that arrive then.
\<close>

datatype call =
    Start
  | Send_audio "byte list"
  | Stop
  | Task_turn "recv list"

fun apply_call :: "env \<Rightarrow> call \<Rightarrow> bridge \<Rightarrow> bridge" where
  "apply_call cfg Start s = snd (start cfg s)"
| "apply_call cfg (Send_audio pcm_bytes) s = snd (send_audio cfg pcm_bytes s)"
| "apply_call cfg Stop s = snd (stop cfg s)"
| "apply_call cfg (Task_turn rs) s = task_turn (callback cfg) rs s"

fun run_calls :: "env \<Rightarrow> call list \<Rightarrow> bridge \<Rightarrow> bridge" where
  "run_calls cfg [] s = s"
| "run_calls cfg (c # cs) s = run_calls cfg cs (apply_call cfg c s)"

text \<open>No call of the run is a \<^verbatim>\<open>start()\<close> that returns without raising.\<close>

fun no_start_succeeds :: "env \<Rightarrow> call list \<Rightarrow> bridge \<Rightarrow> bool" where
  "no_start_succeeds cfg [] s = True"
| "no_start_succeeds cfg (c # cs) s =
     ((case c of Start \<Rightarrow> fst (start cfg s) \<noteq> None | _ \<Rightarrow> True)
      \<and> no_start_succeeds cfg cs (apply_call cfg c s))"

text \<open>What holds of every session: an active one has its stream and a running task.\<close>

definition consistent :: "bridge \<Rightarrow> bool" where
  "consistent s = (\<not> is_active s \<or> (stream s \<noteq> None \<and> response_task s = Some Task_running))"

subsection \<open>Reading an event\<close>

text \<open>The tag of a frame \<^verbatim>\<open>{"event": {tag: body}}\<close> and a field of its body.\<close>

fun event_tag :: "json \<Rightarrow> string option" where
  "event_tag (JObj [(k, JObj [(tag, body)])]) = (if k = ''event'' then Some tag else None)"
| "event_tag _ = None"

fun event_field :: "string \<Rightarrow> json \<Rightarrow> json option" where
  "event_field f (JObj [(k, JObj [(tag, JObj kvs)])]) =
     (if k = ''event'' then map_of kvs f else None)"
| "event_field f _ = None"

text \<open>An inbound audio frame \<^verbatim>\<open>{"event": {"audioOutput": {"content": c}}}\<close>.\<close>

definition audio_output_frame :: "string \<Rightarrow> recv" where
  "audio_output_frame c = Recv_json (event ''audioOutput'' (JObj [(''content'', JStr c)]))"

text \<open>The name the loop logs for an event object.\<close>

fun first_key :: "(string \<times> json) list \<Rightarrow> string" where
  "first_key [] = ''unknown''"
| "first_key (kv # kvs) = fst kv"

subsection \<open>Auxiliary notions\<close>

text \<open>The state of \<^verbatim>\<open>start\<close> once the stream is open, the flag set and the task created.\<close>

definition connected :: "bridge \<Rightarrow> bridge" where
  "connected s =
     s\<lparr>stream := Some (), is_active := True, response_task := Some Task_running,
       task_role := JNull, opened := opened s + 1,
       logged := logged s @ [Log_info ''Connecting to Nova Sonic...'', Log_info ''Stream connected'']\<rparr>"

text \<open>Two states that differ at most in the sink calls and the log.\<close>

definition observed_only :: "bridge \<Rightarrow> bridge \<Rightarrow> bool" where
  "observed_only s s' =
     (stream s' = stream s \<and> is_active s' = is_active s \<and> prompt_name s' = prompt_name s
      \<and> content_name s' = content_name s \<and> audio_content_name s' = audio_content_name s
      \<and> audio_chunks_sent s' = audio_chunks_sent s \<and> response_task s' = response_task s
      \<and> opened s' = opened s \<and> sent s' = sent s \<and> closed s' = closed s
      \<and> cancelled s' = cancelled s \<and> task_role s' = task_role s \<and> yields s' = yields s)"

text \<open>A turn of the task leaves the session's own fields alone; it keeps the flag and the
  task as they are, or clears the flag and ends the task.\<close>

definition turn_of :: "bridge \<Rightarrow> bridge \<Rightarrow> bool" where
  "turn_of s s' =
     (stream s' = stream s \<and> prompt_name s' = prompt_name s \<and> content_name s' = content_name s
      \<and> audio_content_name s' = audio_content_name s
      \<and> audio_chunks_sent s' = audio_chunks_sent s \<and> opened s' = opened s \<and> sent s' = sent s
      \<and> closed s' = closed s \<and> cancelled s' = cancelled s \<and> yields s' = yields s
      \<and> (is_active s' = is_active s \<and> response_task s' = response_task s
          \<or> is_active s' = False \<and> response_task s' = Some Task_done))"

subsection \<open>Concrete sessions\<close>

text \<open>The default configuration with an SDK that never fails, a sink that returns and no
  frame arriving during the pauses; SDKs whose sends fail from the \<open>n\<close>-th on, or whose
  stream cannot be opened; a service whose stream breaks for the reader during the first
  pause of the session; and a freshly built session.\<close>

definition default_env :: env where
  "default_env =
     \<lparr>voice_id = ''tiffany'',
      system_prompt = ''You are a friendly phone assistant. Keep responses short and conversational.'',
      open_result = (\<lambda>n. None), send_result = (\<lambda>n. None), close_result = (\<lambda>n. None),
      callback = (\<lambda>bs. None), arrivals = (\<lambda>n. [])\<rparr>"

definition failing_sends_env :: "nat \<Rightarrow> env" where
  "failing_sends_env n =
     default_env\<lparr>send_result := (\<lambda>i. if n \<le> i then Some (Exception ''stream closed'') else None)\<rparr>"

definition failing_open_env :: env where
  "failing_open_env = default_env\<lparr>open_result := (\<lambda>n. Some (Exception ''no credentials''))\<rparr>"


definition fresh :: bridge where
  "fresh = init ''prompt-1'' ''content-1'' ''audio-1''"


section \<open>Properties of the methods\<close>

subsection \<open>Sending\<close>

lemma send_event_inactive: "\<not> is_active s \<Longrightarrow> send_event cfg ev s = (None, s)"
  by (simp add: send_event_def)

lemma send_event_ok:
  "stream s \<noteq> None \<Longrightarrow> is_active s \<Longrightarrow> send_result cfg (length (sent s)) = None \<Longrightarrow>
   send_event cfg ev s = (None, s\<lparr>sent := sent s @ [ev]\<rparr>)"
  by (simp add: send_event_def)


lemma send_event_raises_inactive:
  "fst (send_event cfg ev s) = Some e \<Longrightarrow> \<not> is_active (snd (send_event cfg ev s))"
  by (auto simp: send_event_def log_error_def Let_def split: if_splits option.splits)

lemma send_event_keeps:
  "stream (snd (send_event cfg ev s)) = stream s"
  "response_task (snd (send_event cfg ev s)) = response_task s"
  "prompt_name (snd (send_event cfg ev s)) = prompt_name s"
  "content_name (snd (send_event cfg ev s)) = content_name s"
  "audio_content_name (snd (send_event cfg ev s)) = audio_content_name s"
  "audio_chunks_sent (snd (send_event cfg ev s)) = audio_chunks_sent s"
  "sink_calls (snd (send_event cfg ev s)) = sink_calls s"
  "closed (snd (send_event cfg ev s)) = closed s"
  "cancelled (snd (send_event cfg ev s)) = cancelled s"
  "opened (snd (send_event cfg ev s)) = opened s"
  "yields (snd (send_event cfg ev s)) = yields s"
  "task_role (snd (send_event cfg ev s)) = task_role s"
  by (simp_all add: send_event_def log_error_def Let_def split: option.splits)

lemma send_event_active: "is_active (snd (send_event cfg ev s)) \<Longrightarrow> is_active s"
  by (auto simp: send_event_def log_error_def Let_def split: if_splits option.splits)


subsection \<open>The draining task keeps the session's own fields\<close>

lemma observed_only_refl: "observed_only s s"
  by (simp add: observed_only_def)

lemma observed_only_trans: "observed_only s s' \<Longrightarrow> observed_only s' s'' \<Longrightarrow> observed_only s s''"
  by (simp add: observed_only_def)

lemma on_content_start_observed: "observed_only s (snd (on_content_start ev s))"
  by (simp add: on_content_start_def observed_only_def split: sum.splits)

lemma on_text_output_observed: "observed_only s (snd (on_text_output role ev s))"
  by (simp add: on_text_output_def observed_only_def split: sum.splits)

lemma on_audio_output_observed: "observed_only s (snd (on_audio_output cb role ev s))"
  by (simp add: on_audio_output_def observed_only_def Let_def split: sum.splits option.splits)

lemma dispatch_observed: "observed_only s (snd (dispatch cb role ev s))"
  by (simp add: dispatch_def on_content_start_observed on_text_output_observed
      on_audio_output_observed observed_only_refl split: sum.splits bool.splits)

lemma log_info_observed: "observed_only s (log_info m s)"
  by (simp add: observed_only_def log_info_def)

lemma log_error_observed: "observed_only s (log_error m e s)"
  by (simp add: observed_only_def log_error_def)

lemma handle_json_observed: "observed_only s (snd (handle_json cb role j s))"
proof (cases "py_in ''event'' j")
  case (Inl e)
  then show ?thesis by (simp add: handle_json_def observed_only_refl)
next
  case (Inr b)
  show ?thesis
  proof (cases b)
    case False
    then show ?thesis using Inr by (simp add: handle_json_def observed_only_refl)
  next
    case True
    show ?thesis
    proof (cases "py_getitem j ''event''")
      case (Inl e)
      then show ?thesis using Inr True by (simp add: handle_json_def observed_only_refl)
    next
      case ev: (Inr ev)
      show ?thesis
      proof (cases "event_type_of ev")
        case (Inl e)
        then show ?thesis using Inr True ev by (simp add: handle_json_def observed_only_refl)
      next
        case ty: (Inr ty)
        have "observed_only s (snd (dispatch cb role ev (log_info (''Event: '' @ ty) s)))"
          by (rule observed_only_trans [OF log_info_observed dispatch_observed])
        then show ?thesis
          using Inr True ev ty by (simp add: handle_json_def dispatch_observed)
      qed
    qed
  qed
qed

lemma on_receive_observed: "observed_only s (snd (on_receive cb role r s))"
proof (cases r)
  case (Recv_json j)
  obtain res s' where h: "handle_json cb role j s = (res, s')"
    by (cases "handle_json cb role j s")
  have "observed_only s s'"
    using handle_json_observed [of s cb role j] h by simp
  then show ?thesis
    using Recv_json h by (cases res) (simp_all add: on_receive_def)
qed (simp_all add: on_receive_def observed_only_refl log_error_observed)

lemma drain_loop_observed: "observed_only s (snd (drain_loop cb role rs s))"
proof (induction rs arbitrary: role s)
  case Nil
  then show ?case by (simp add: observed_only_refl)
next
  case (Cons r rs)
  obtain res s' where h: "on_receive cb role r s = (res, s')"
    by (cases "on_receive cb role r s")
  have o: "observed_only s s'"
    using on_receive_observed [of s cb role r] h by simp
  show ?case
  proof (cases res)
    case (Inl x)
    then show ?thesis using h o by (simp add: observed_only_refl)
  next
    case (Inr role')
    then show ?thesis
      using h observed_only_trans [OF o Cons.IH [of s' role']] by (simp add: observed_only_refl)
  qed
qed

lemma resume_loop_observed: "observed_only s (snd (resume_loop cb role rs s))"
proof (cases rs)
  case Nil
  then show ?thesis by (simp add: observed_only_refl)
next
  case (Cons r rs')
  obtain res s' where h: "on_receive cb role r s = (res, s')"
    by (cases "on_receive cb role r s")
  have o: "observed_only s s'"
    using on_receive_observed [of s cb role r] h by simp
  show ?thesis
  proof (cases res)
    case (Inl x)
    then show ?thesis using Cons h o by simp
  next
    case (Inr role')
    then show ?thesis
      using Cons h observed_only_trans [OF o drain_loop_observed [of s' cb role' rs']] by simp
  qed
qed

lemma drain_loop_active: "is_active s \<Longrightarrow> drain_loop cb role rs s = resume_loop cb role rs s"
  by (cases rs) simp_all

lemma after_loop_turn: "observed_only s s' \<Longrightarrow> turn_of s (snd (after_loop x s'))"
  by (cases x) (auto simp: after_loop_def task_finished_def log_error_def turn_of_def observed_only_def)

lemma task_turn_turn_of: "turn_of s (task_turn cb rs s)"
proof (cases "response_task s = Some Task_running")
  case False
  then have "task_turn cb rs s = s"
    by (simp add: task_turn_def split: option.splits task.splits)
  then show ?thesis by (simp add: turn_of_def)
next
  case True
  obtain x s' where h: "resume_loop cb (task_role s) rs s = (x, s')"
    by (cases "resume_loop cb (task_role s) rs s")
  have o: "observed_only s s'"
    using resume_loop_observed [of s cb "task_role s" rs] h by simp
  show ?thesis
  proof (cases x)
    case (Awaiting role)
    then have "task_turn cb rs s = s'\<lparr>task_role := role\<rparr>"
      using True h by (simp add: task_turn_def)
    then show ?thesis using o by (simp add: turn_of_def observed_only_def)
  next
    case Loop_ended
    then have "task_turn cb rs s = snd (after_loop x s')"
      using True h by (simp add: task_turn_def)
    then show ?thesis using after_loop_turn [OF o] by simp
  next
    case Raised_cancelled
    then have "task_turn cb rs s = snd (after_loop x s')"
      using True h by (simp add: task_turn_def)
    then show ?thesis using after_loop_turn [OF o] by simp
  next
    case (Raised e)
    then have "task_turn cb rs s = snd (after_loop x s')"
      using True h by (simp add: task_turn_def)
    then show ?thesis using after_loop_turn [OF o] by simp
  qed
qed

lemma task_turn_quiet: "task_turn cb [] s = s"
  by (simp add: task_turn_def split: option.splits task.splits)

lemma sleep_quiet: "arrivals cfg (yields s) = [] \<Longrightarrow> sleep cfg s = s\<lparr>yields := Suc (yields s)\<rparr>"
  by (simp add: sleep_def task_turn_quiet)

lemma sleep_fields:
  "stream (sleep cfg s) = stream s" "sent (sleep cfg s) = sent s" "closed (sleep cfg s) = closed s"
  "cancelled (sleep cfg s) = cancelled s" "opened (sleep cfg s) = opened s"
  "prompt_name (sleep cfg s) = prompt_name s" "content_name (sleep cfg s) = content_name s"
  "audio_content_name (sleep cfg s) = audio_content_name s"
  "audio_chunks_sent (sleep cfg s) = audio_chunks_sent s"
  "yields (sleep cfg s) = Suc (yields s)"
  using task_turn_turn_of [of "s\<lparr>yields := yields s + 1\<rparr>" "callback cfg" "arrivals cfg (yields s)"]
  by (simp_all add: sleep_def turn_of_def)

lemma sleep_active: "is_active (sleep cfg s) \<Longrightarrow> is_active s"
  using task_turn_turn_of [of "s\<lparr>yields := yields s + 1\<rparr>" "callback cfg" "arrivals cfg (yields s)"]
  by (auto simp: sleep_def turn_of_def)

lemma sleep_task:
  "response_task (sleep cfg s) = response_task s \<and> is_active (sleep cfg s) = is_active s
   \<or> response_task (sleep cfg s) = Some Task_done \<and> \<not> is_active (sleep cfg s)"
  using task_turn_turn_of [of "s\<lparr>yields := yields s + 1\<rparr>" "callback cfg" "arrivals cfg (yields s)"]
  by (auto simp: sleep_def turn_of_def)

subsection \<open>Sends with pauses\<close>

lemma send_events_active: "is_active (snd (send_events cfg evs s)) \<Longrightarrow> is_active s"
proof (induction cfg evs s rule: send_events.induct)
  case (1 cfg s)
  then show ?case by simp
next
  case (2 cfg ev s)
  then show ?case by (simp add: send_event_active)
next
  case (3 cfg ev ev' evs s)
  obtain r s' where step: "send_event cfg ev s = (r, s')"
    by (cases "send_event cfg ev s")
  show ?case
  proof (cases r)
    case None
    then have "is_active (sleep cfg s')" using 3 step by simp
    then have "is_active s'" by (rule sleep_active)
    then show ?thesis using send_event_active [of cfg ev s] step by simp
  next
    case (Some e)
    then have "is_active s'" using "3.prems" step by simp
    then show ?thesis using send_event_active [of cfg ev s] step by simp
  qed
qed


lemma send_events_raises_inactive:
  "fst (send_events cfg evs s) = Some e \<Longrightarrow> \<not> is_active (snd (send_events cfg evs s))"
proof (induction cfg evs s rule: send_events.induct)
  case (1 cfg s)
  then show ?case by simp
next
  case (2 cfg ev s)
  then show ?case by (simp add: send_event_raises_inactive)
next
  case (3 cfg ev ev' evs s)
  obtain r s' where step: "send_event cfg ev s = (r, s')"
    by (cases "send_event cfg ev s")
  show ?case
  proof (cases r)
    case None
    then show ?thesis using 3 step by simp
  next
    case (Some e')
    then have "\<not> is_active s'"
      using send_event_raises_inactive [of cfg ev s e'] step by simp
    then show ?thesis using step Some by simp
  qed
qed


lemma send_events_fields:
  "stream (snd (send_events cfg evs s)) = stream s \<and> closed (snd (send_events cfg evs s)) = closed s
   \<and> cancelled (snd (send_events cfg evs s)) = cancelled s
   \<and> opened (snd (send_events cfg evs s)) = opened s
   \<and> prompt_name (snd (send_events cfg evs s)) = prompt_name s
   \<and> content_name (snd (send_events cfg evs s)) = content_name s
   \<and> audio_content_name (snd (send_events cfg evs s)) = audio_content_name s
   \<and> audio_chunks_sent (snd (send_events cfg evs s)) = audio_chunks_sent s"
proof (induction cfg evs s rule: send_events.induct)
  case (1 cfg s)
  then show ?case by simp
next
  case (2 cfg ev s)
  then show ?case by (simp add: send_event_keeps)
next
  case (3 cfg ev ev' evs s)
  obtain r s' where step: "send_event cfg ev s = (r, s')"
    by (cases "send_event cfg ev s")
  have k: "stream s' = stream s" "closed s' = closed s" "cancelled s' = cancelled s"
    "opened s' = opened s" "prompt_name s' = prompt_name s" "content_name s' = content_name s"
    "audio_content_name s' = audio_content_name s" "audio_chunks_sent s' = audio_chunks_sent s"
    using send_event_keeps [of cfg ev s] step by simp_all
  show ?case
  proof (cases r)
    case None
    then show ?thesis using "3.IH" [of None s'] step k by (simp add: sleep_fields)
  next
    case (Some e)
    then show ?thesis using step k by simp
  qed
qed




lemma send_events_inactive:
  "\<not> is_active s \<Longrightarrow>
   fst (send_events cfg evs s) = None \<and> sent (snd (send_events cfg evs s)) = sent s
   \<and> \<not> is_active (snd (send_events cfg evs s))"
proof (induction cfg evs s rule: send_events.induct)
  case (1 cfg s)
  then show ?case by simp
next
  case (2 cfg ev s)
  then show ?case by (simp add: send_event_inactive)
next
  case (3 cfg ev ev' evs s)
  have "\<not> is_active (sleep cfg s)" using "3.prems" sleep_active by blast
  then show ?case
    using "3.IH" [of None s] "3.prems" by (simp add: send_event_inactive sleep_fields)
qed



lemma send_events_task:
  "response_task (snd (send_events cfg evs s)) = response_task s
   \<or> response_task (snd (send_events cfg evs s)) = Some Task_done
      \<and> \<not> is_active (snd (send_events cfg evs s))"
proof (induction cfg evs s rule: send_events.induct)
  case (1 cfg s)
  then show ?case by simp
next
  case (2 cfg ev s)
  then show ?case by (simp add: send_event_keeps)
next
  case (3 cfg ev ev' evs s)
  obtain r s' where step: "send_event cfg ev s = (r, s')"
    by (cases "send_event cfg ev s")
  have k: "response_task s' = response_task s"
    using send_event_keeps(2) [of cfg ev s] step by simp
  show ?case
  proof (cases r)
    case (Some e)
    then show ?thesis using step k by simp
  next
    case None
    from sleep_task [of cfg s'] show ?thesis
    proof
      assume "response_task (sleep cfg s') = response_task s' \<and> is_active (sleep cfg s') = is_active s'"
      then show ?thesis using "3.IH" [of None s'] step None k by auto
    next
      assume d: "response_task (sleep cfg s') = Some Task_done \<and> \<not> is_active (sleep cfg s')"
      then have "\<not> is_active (snd (send_events cfg (ev' # evs) (sleep cfg s')))"
        using send_events_active by blast
      then show ?thesis using "3.IH" [of None s'] step None d by auto
    qed
  qed
qed


lemma send_events_quiet:
  "stream s \<noteq> None \<Longrightarrow> is_active s \<Longrightarrow>
   (\<forall>j < length evs. send_result cfg (length (sent s) + j) = None) \<Longrightarrow>
   (\<forall>j. Suc j < length evs \<longrightarrow> arrivals cfg (yields s + j) = []) \<Longrightarrow>
   send_events cfg evs s = (None, s\<lparr>sent := sent s @ evs, yields := yields s + (length evs - 1)\<rparr>)"
proof (induction cfg evs s rule: send_events.induct)
  case (1 cfg s)
  then show ?case by simp
next
  case (2 cfg ev s)
  then show ?case by (simp add: send_event_ok)
next
  case (3 cfg ev ev' evs s)
  let ?s' = "s\<lparr>sent := sent s @ [ev]\<rparr>"
  have "send_result cfg (length (sent s)) = None" using "3.prems"(3) by force
  then have step: "send_event cfg ev s = (None, ?s')"
    using "3.prems" by (simp add: send_event_ok)
  have "arrivals cfg (yields s) = []" using "3.prems"(4) by force
  then have sl: "sleep cfg ?s' = ?s'\<lparr>yields := Suc (yields s)\<rparr>"
    by (simp add: sleep_quiet)
  have a: "\<forall>j < length (ev' # evs). send_result cfg (length (sent (sleep cfg ?s')) + j) = None"
  proof (intro allI impI)
    fix j assume "j < length (ev' # evs)"
    then have "Suc j < length (ev # ev' # evs)" by simp
    then have "send_result cfg (length (sent s) + Suc j) = None" using "3.prems"(3) by blast
    then show "send_result cfg (length (sent (sleep cfg ?s')) + j) = None" by (simp add: sl)
  qed
  have b: "\<forall>j. Suc j < length (ev' # evs) \<longrightarrow> arrivals cfg (yields (sleep cfg ?s') + j) = []"
  proof (intro allI impI)
    fix j assume "Suc j < length (ev' # evs)"
    then have "Suc (Suc j) < length (ev # ev' # evs)" by simp
    then have "arrivals cfg (yields s + Suc j) = []" using "3.prems"(4) by blast
    then show "arrivals cfg (yields (sleep cfg ?s') + j) = []" by (simp add: sl)
  qed
  have "send_events cfg (ev' # evs) (sleep cfg ?s') =
      (None, (sleep cfg ?s')\<lparr>sent := sent (sleep cfg ?s') @ ev' # evs,
                yields := yields (sleep cfg ?s') + (length (ev' # evs) - 1)\<rparr>)"
    using "3.prems"(1,2) a b step by (intro "3.IH" [of None ?s']) (simp_all add: sl)
  then show ?case using step by (simp add: sl)
qed


lemma send_events_inactive_quiet:
  "\<not> is_active s \<Longrightarrow> (\<forall>j. Suc j < length evs \<longrightarrow> arrivals cfg (yields s + j) = []) \<Longrightarrow>
   send_events cfg evs s = (None, s\<lparr>yields := yields s + (length evs - 1)\<rparr>)"
proof (induction cfg evs s rule: send_events.induct)
  case (1 cfg s)
  then show ?case by simp
next
  case (2 cfg ev s)
  then show ?case by (simp add: send_event_inactive)
next
  case (3 cfg ev ev' evs s)
  have "arrivals cfg (yields s) = []" using "3.prems"(2) by force
  then have sl: "sleep cfg s = s\<lparr>yields := Suc (yields s)\<rparr>"
    by (simp add: sleep_quiet)
  have b: "\<forall>j. Suc j < length (ev' # evs) \<longrightarrow> arrivals cfg (yields (sleep cfg s) + j) = []"
  proof (intro allI impI)
    fix j assume "Suc j < length (ev' # evs)"
    then have "Suc (Suc j) < length (ev # ev' # evs)" by simp
    then have "arrivals cfg (yields s + Suc j) = []" using "3.prems"(2) by blast
    then show "arrivals cfg (yields (sleep cfg s) + j) = []" by (simp add: sl)
  qed
  have "send_events cfg (ev' # evs) (sleep cfg s) =
      (None, (sleep cfg s)\<lparr>yields := yields (sleep cfg s) + (length (ev' # evs) - 1)\<rparr>)"
    using "3.prems"(1) b by (intro "3.IH" [of None s]) (simp_all add: send_event_inactive sl)
  then show ?case using "3.prems"(1) by (simp add: send_event_inactive sl)
qed



subsection \<open>Starting\<close>

lemma handshake_events_cong:
  "prompt_name s' = prompt_name s \<Longrightarrow> content_name s' = content_name s \<Longrightarrow>
   audio_content_name s' = audio_content_name s \<Longrightarrow>
   handshake_events cfg s' = handshake_events cfg s"
  by (simp add: handshake_events_def prompt_start_event_def system_content_start_event_def
      text_input_event_def system_content_end_event_def audio_content_start_event_def)

lemma audio_input_event_cong:
  "prompt_name s' = prompt_name s \<Longrightarrow> audio_content_name s' = audio_content_name s \<Longrightarrow>
   audio_input_event s' pcm = audio_input_event s pcm"
  by (simp add: audio_input_event_def)

lemma start_open_raises:
  "open_result cfg (opened s) = Some e \<Longrightarrow>
   start cfg s =
     (Some e, s\<lparr>opened := opened s + 1,
                logged := logged s @ [Log_info ''Connecting to Nova Sonic...'',
                                      Log_error ''Failed to start Nova Sonic session: '' e],
                is_active := False\<rparr>)"
  by (simp add: start_def start_failed_def log_info_def log_error_def)

lemma start_open_ok:
  "open_result cfg (opened s) = None \<Longrightarrow>
   start cfg s =
     (case send_events cfg (handshake_events cfg s) (sleep cfg (connected s)) of
        (Some e, s2) \<Rightarrow> start_failed e s2
      | (None, s2) \<Rightarrow> (None, log_info ''Nova Sonic ready for audio'' s2))"
proof -
  assume ok: "open_result cfg (opened s) = None"
  let ?s1 = "(log_info ''Stream connected''
               (((log_info ''Connecting to Nova Sonic...'' s)\<lparr>opened := opened s + 1\<rparr>)
                  \<lparr>stream := Some (), is_active := True\<rparr>))
               \<lparr>response_task := Some Task_running, task_role := JNull\<rparr>"
  have s1: "?s1 = connected s"
    by (simp add: connected_def log_info_def)
  have ev: "handshake_events cfg ?s1 = handshake_events cfg s"
    by (rule handshake_events_cong) (simp_all add: log_info_def)
  show ?thesis
    unfolding start_def Let_def using ok ev s1 by simp
qed

lemma connected_fields:
  "stream (connected s) = Some ()" "is_active (connected s)"
  "response_task (connected s) = Some Task_running" "sent (connected s) = sent s"
  "yields (connected s) = yields s" "closed (connected s) = closed s"
  "cancelled (connected s) = cancelled s" "prompt_name (connected s) = prompt_name s"
  "content_name (connected s) = content_name s"
  "audio_content_name (connected s) = audio_content_name s"
  "audio_chunks_sent (connected s) = audio_chunks_sent s"
  by (simp_all add: connected_def)


lemma start_raises_inactive:
  assumes "fst (start cfg s) = Some e"
  shows "\<not> is_active (snd (start cfg s))"
proof (cases "open_result cfg (opened s)")
  case (Some e')
  then show ?thesis by (simp add: start_open_raises)
next
  case None
  obtain r s2 where run: "send_events cfg (handshake_events cfg s) (sleep cfg (connected s)) = (r, s2)"
    by (cases "send_events cfg (handshake_events cfg s) (sleep cfg (connected s))")
  show ?thesis
    using assms run None by (cases r) (simp_all add: start_open_ok start_failed_def log_error_def)
qed



lemma start_quiet:
  assumes "open_result cfg (opened s) = None"
    and "\<forall>j<6. send_result cfg (length (sent s) + j) = None"
    and "\<forall>j<6. arrivals cfg (yields s + j) = []"
  shows "start cfg s =
     (None, (connected s)\<lparr>sent := sent s @ handshake_events cfg s, yields := yields s + 6,
               logged := logged (connected s) @ [Log_info ''Nova Sonic ready for audio'']\<rparr>)"
proof -
  have "arrivals cfg (yields s) = []" using assms(3) by force
  then have sl: "sleep cfg (connected s) = (connected s)\<lparr>yields := Suc (yields s)\<rparr>"
    by (simp add: sleep_quiet connected_fields)
  have len: "length (handshake_events cfg s) = 6" by (simp add: handshake_events_def)
  have b: "\<forall>j. Suc j < length (handshake_events cfg s) \<longrightarrow>
      arrivals cfg (yields (sleep cfg (connected s)) + j) = []"
  proof (intro allI impI)
    fix j assume "Suc j < length (handshake_events cfg s)"
    then have "Suc j < 6" using len by simp
    then have "arrivals cfg (yields s + Suc j) = []" using assms(3) by blast
    then show "arrivals cfg (yields (sleep cfg (connected s)) + j) = []"
      by (simp add: sl)
  qed
  have a: "\<forall>j < length (handshake_events cfg s).
      send_result cfg (length (sent (sleep cfg (connected s))) + j) = None"
    using assms(2) len by (simp add: sl connected_fields)
  have "send_events cfg (handshake_events cfg s) (sleep cfg (connected s)) =
      (None, (sleep cfg (connected s))\<lparr>sent := sent (sleep cfg (connected s)) @ handshake_events cfg s,
         yields := yields (sleep cfg (connected s)) + (length (handshake_events cfg s) - 1)\<rparr>)"
    using a b by (intro send_events_quiet) (simp_all add: sl connected_fields)
  then show ?thesis
    by (simp add: start_open_ok [OF assms(1)] sl len log_info_def connected_fields)
qed

subsection \<open>The invariant, and sessions that stay inactive\<close>

lemma consistent_init: "consistent (init p c a)"
  by (simp add: consistent_def init_def)

lemma consistent_sleep: "consistent s \<Longrightarrow> consistent (sleep cfg s)"
  using sleep_task [of cfg s] by (auto simp: consistent_def sleep_fields)

lemma consistent_send_event: "consistent s \<Longrightarrow> consistent (snd (send_event cfg ev s))"
  using send_event_active [of cfg ev s] by (auto simp: consistent_def send_event_keeps)

lemma consistent_send_events: "consistent s \<Longrightarrow> consistent (snd (send_events cfg evs s))"
proof (induction cfg evs s rule: send_events.induct)
  case (1 cfg s)
  then show ?case by simp
next
  case (2 cfg ev s)
  then show ?case by (simp add: consistent_send_event)
next
  case (3 cfg ev ev' evs s)
  obtain r s' where step: "send_event cfg ev s = (r, s')"
    by (cases "send_event cfg ev s")
  have c: "consistent s'"
    using consistent_send_event [OF "3.prems", of cfg ev] step by simp
  show ?case
  proof (cases r)
    case None
    then show ?thesis using "3.IH" [of None s'] step consistent_sleep [OF c] by simp
  next
    case (Some e)
    then show ?thesis using step c by simp
  qed
qed

lemma consistent_start: "consistent (snd (start cfg s))"
proof (cases "open_result cfg (opened s)")
  case (Some e)
  then show ?thesis by (simp add: start_open_raises consistent_def)
next
  case None
  obtain r s2 where run: "send_events cfg (handshake_events cfg s) (sleep cfg (connected s)) = (r, s2)"
    by (cases "send_events cfg (handshake_events cfg s) (sleep cfg (connected s))")
  have "consistent (connected s)" by (simp add: consistent_def connected_def)
  then have "consistent (sleep cfg (connected s))" by (rule consistent_sleep)
  then have "consistent s2"
    using consistent_send_events [of "sleep cfg (connected s)" cfg "handshake_events cfg s"] run by simp
  then show ?thesis
    using run None
    by (cases r) (simp_all add: start_open_ok start_failed_def log_error_def log_info_def consistent_def)
qed

lemma consistent_send_audio: "consistent s \<Longrightarrow> consistent (snd (send_audio cfg pcm s))"
  using send_event_active [of cfg "audio_input_event (s\<lparr>audio_chunks_sent := audio_chunks_sent s + 1\<rparr>) pcm"
      "s\<lparr>audio_chunks_sent := audio_chunks_sent s + 1\<rparr>"]
  by (auto simp: consistent_def send_audio_def Let_def send_event_keeps)

lemma stop_inactive: "\<not> is_active (snd (stop cfg s))"
proof (cases "is_active s")
  case False
  then show ?thesis by (simp add: stop_def)
next
  case True
  let ?s1 = "s\<lparr>is_active := False\<rparr>"
  obtain r s' where run: "send_events cfg (shutdown_events ?s1) ?s1 = (r, s')"
    by (cases "send_events cfg (shutdown_events ?s1) ?s1")
  have "\<not> is_active s'"
    using send_events_active [of cfg "shutdown_events ?s1" ?s1] run by auto
  then show ?thesis
    using True run
    by (cases r) (simp_all add: stop_def Let_def cancel_task_def close_input_def log_error_def
        split: option.splits task.splits)
qed

lemma consistent_task_turn: "consistent s \<Longrightarrow> consistent (task_turn cb rs s)"
  using task_turn_turn_of [of s cb rs] by (auto simp: consistent_def turn_of_def)

lemma consistent_apply_call: "consistent s \<Longrightarrow> consistent (apply_call cfg c s)"
proof (cases c)
  case Start
  then show ?thesis by (simp add: consistent_start)
next
  case (Send_audio pcm)
  assume "consistent s"
  then show ?thesis using Send_audio by (simp add: consistent_send_audio)
next
  case Stop
  then show ?thesis using stop_inactive by (simp add: consistent_def)
next
  case (Task_turn rs)
  assume "consistent s"
  then show ?thesis using Task_turn by (simp add: consistent_task_turn)
qed

lemma consistent_run_calls: "consistent s \<Longrightarrow> consistent (run_calls cfg calls s)"
  by (induction calls arbitrary: s) (simp_all add: consistent_apply_call)

lemma session_active_has_stream:
  assumes "s = run_calls cfg calls (init p c a)" and "is_active s"
  shows "stream s \<noteq> None" and "response_task s = Some Task_running"
  using consistent_run_calls [OF consistent_init, of cfg calls p c a] assms
  by (simp_all add: consistent_def)

lemma send_audio_inactive: "\<not> is_active s \<Longrightarrow> send_audio cfg pcm s = (None, s)"
  by (simp add: send_audio_def)

lemma stop_inactive_noop: "\<not> is_active s \<Longrightarrow> stop cfg s = (None, s)"
  by (simp add: stop_def)

lemma task_turn_stays_inactive: "\<not> is_active s \<Longrightarrow> \<not> is_active (task_turn cb rs s)"
  using task_turn_turn_of [of s cb rs] by (auto simp: turn_of_def)

lemma apply_call_stays_inactive:
  assumes "\<not> is_active s" and "no_start_succeeds cfg [c] s"
  shows "\<not> is_active (apply_call cfg c s)"
proof (cases c)
  case Start
  then have "fst (start cfg s) \<noteq> None" using assms(2) by simp
  then show ?thesis using Start start_raises_inactive [of cfg s] by auto
next
  case (Send_audio pcm)
  then show ?thesis using assms(1) by (simp add: send_audio_inactive)
next
  case Stop
  then show ?thesis using assms(1) by (simp add: stop_inactive_noop)
next
  case (Task_turn rs)
  then show ?thesis using assms(1) by (simp add: task_turn_stays_inactive)
qed

lemma run_calls_stays_inactive:
  "\<not> is_active s \<Longrightarrow> no_start_succeeds cfg calls s \<Longrightarrow> \<not> is_active (run_calls cfg calls s)"
proof (induction calls arbitrary: s)
  case Nil
  then show ?case by simp
next
  case (Cons c calls)
  have "\<not> is_active (apply_call cfg c s)"
    using Cons.prems by (intro apply_call_stays_inactive) simp_all
  then show ?case using Cons by simp
qed

subsection \<open>Stopping\<close>

lemma stop_active:
  assumes "is_active s" and "stream s \<noteq> None" and "response_task s = Some Task_running"
  shows "fst (stop cfg s) = None"
    and "sent (snd (stop cfg s)) = sent s"
    and "closed (snd (stop cfg s)) = closed s + 1"
    and "response_task (snd (stop cfg s)) = Some Task_done"
    and "cancelled (snd (stop cfg s)) = cancelled s \<or> cancelled (snd (stop cfg s)) = cancelled s + 1"
proof -
  let ?s1 = "s\<lparr>is_active := False\<rparr>"
  obtain r s' where run: "send_events cfg (shutdown_events ?s1) ?s1 = (r, s')"
    by (cases "send_events cfg (shutdown_events ?s1) ?s1")
  have r: "r = None" and snt: "sent s' = sent s"
    using send_events_inactive [of ?s1 cfg "shutdown_events ?s1"] run by simp_all
  have f: "stream s' = stream s" "closed s' = closed s" "cancelled s' = cancelled s"
    using send_events_fields [of cfg "shutdown_events ?s1" ?s1] run by simp_all
  have t: "response_task s' = Some Task_running \<or> response_task s' = Some Task_done"
    using send_events_task [of cfg "shutdown_events ?s1" ?s1] run assms(3) by auto
  obtain h where h: "stream s' = Some h" using f(1) assms(2) by auto
  define s2 where "s2 = (case close_result cfg (closed s') of
       Some e \<Rightarrow> log_error ''Error closing Nova Sonic session: '' e (s'\<lparr>closed := closed s' + 1\<rparr>)
     | None \<Rightarrow> s'\<lparr>closed := closed s' + 1\<rparr>)"
  have st: "stop cfg s = (None, cancel_task s2)"
    using assms(1) run r h by (simp add: stop_def Let_def close_input_def s2_def split: option.splits)
  have s2: "sent s2 = sent s" "closed s2 = closed s + 1" "cancelled s2 = cancelled s"
    "response_task s2 = response_task s'"
    using snt f by (simp_all add: s2_def log_error_def split: option.splits)
  show "fst (stop cfg s) = None" by (simp add: st)
  show "sent (snd (stop cfg s)) = sent s"
    using s2 by (simp add: st cancel_task_def split: option.splits task.splits)
  show "closed (snd (stop cfg s)) = closed s + 1"
    using s2 by (simp add: st cancel_task_def split: option.splits task.splits)
  show "response_task (snd (stop cfg s)) = Some Task_done"
    using s2 t by (auto simp: st cancel_task_def)
  show "cancelled (snd (stop cfg s)) = cancelled s \<or> cancelled (snd (stop cfg s)) = cancelled s + 1"
    using s2 t by (auto simp: st cancel_task_def)
qed

lemma stop_active_quiet:
  assumes "is_active s" and "stream s \<noteq> None" and "response_task s = Some Task_running"
    and "arrivals cfg (yields s) = []" and "arrivals cfg (Suc (yields s)) = []"
  shows "cancelled (snd (stop cfg s)) = cancelled s + 1"
proof -
  let ?s1 = "s\<lparr>is_active := False\<rparr>"
  have q: "\<forall>j. Suc j < length (shutdown_events ?s1) \<longrightarrow> arrivals cfg (yields ?s1 + j) = []"
  proof (intro allI impI)
    fix j assume "Suc j < length (shutdown_events ?s1)"
    then have "j = 0 \<or> j = 1" by (auto simp: shutdown_events_def)
    then show "arrivals cfg (yields ?s1 + j) = []" using assms(4,5) by auto
  qed
  have run: "send_events cfg (shutdown_events ?s1) ?s1
      = (None, ?s1\<lparr>yields := yields ?s1 + (length (shutdown_events ?s1) - 1)\<rparr>)"
    using q by (intro send_events_inactive_quiet) simp_all
  obtain h where h: "stream s = Some h" using assms(2) by auto
  show ?thesis
    using assms(1,3) h
    by (simp add: stop_def Let_def run close_input_def cancel_task_def log_error_def
        split: option.splits)
qed

subsection \<open>Base64: decoding undoes encoding\<close>

lemma numeral_eq_mask3: "(3 :: byte) = mask 2" by (simp add: mask_eq_exp_minus_1)
lemma numeral_eq_mask15: "(15 :: byte) = mask 4" by (simp add: mask_eq_exp_minus_1)
lemma numeral_eq_mask63: "(63 :: byte) = mask 6" by (simp add: mask_eq_exp_minus_1)

lemma b64_value_char_nat:
  "list_all (\<lambda>n. index_of (b64_alphabet ! n) b64_alphabet = Some n
       \<and> b64_alphabet ! n \<noteq> CHR ''='' \<and> (of_char (b64_alphabet ! n) :: nat) < 128) [0..<64]"
  by code_simp

lemma b64_char_props:
  assumes "v < 64"
  shows "b64_value (b64_char v) = Some v" and "b64_char v \<noteq> CHR ''=''"
    and "(of_char (b64_char v) :: nat) < 128"
proof -
  have n: "unat v < 64" using assms by (simp add: word_less_nat_alt)
  then have "unat v \<in> set [0..<64]" by simp
  then have p: "index_of (b64_alphabet ! unat v) b64_alphabet = Some (unat v)
       \<and> b64_alphabet ! unat v \<noteq> CHR ''='' \<and> (of_char (b64_alphabet ! unat v) :: nat) < 128"
    using b64_value_char_nat unfolding list_all_iff by blast
  show "b64_value (b64_char v) = Some v"
    using p by (simp add: b64_value_def b64_char_def)
  show "b64_char v \<noteq> CHR ''=''" using p by (simp add: b64_char_def)
  show "(of_char (b64_char v) :: nat) < 128" using p by (simp add: b64_char_def)
qed

lemma below_64: "(x :: byte) < 64 \<longleftrightarrow> x AND mask 6 = x"
  using mask_eq_iff_w2p [of 6 x] by (simp add: word_size)

lemma byte_eqI:
  fixes x y :: byte
  assumes "bit x 0 = bit y 0" "bit x 1 = bit y 1" "bit x 2 = bit y 2" "bit x 3 = bit y 3"
    "bit x 4 = bit y 4" "bit x 5 = bit y 5" "bit x 6 = bit y 6" "bit x 7 = bit y 7"
  shows "x = y"
proof (rule bit_word_eqI)
  have "\<forall>i<8. bit x i = bit y i"
    using assms by (simp add: numeral_eq_Suc All_less_Suc)
  then show "bit x i = bit y i" if "i < LENGTH(8)" for i
    using that by simp
qed

lemma byte_high_bit: "8 \<le> n \<Longrightarrow> \<not> bit (a :: byte) n"
  using bit_imp_le_length [of a n] by auto

lemma sextets:
  fixes a b c :: byte
  shows "drop_bit 2 a < 64" "push_bit 4 (a AND 3) OR drop_bit 4 b < 64"
    "push_bit 2 (b AND 15) OR drop_bit 6 c < 64" "c AND 63 < 64"
    "push_bit 4 (a AND 3) < 64" "push_bit 2 (b AND 15) < 64"
  unfolding below_64 numeral_eq_mask3 numeral_eq_mask15 numeral_eq_mask63
  by (rule byte_eqI; simp add: bit_simps byte_high_bit)+

lemma regroup:
  fixes a b c :: byte
  shows "push_bit 2 (drop_bit 2 a) OR drop_bit 4 (push_bit 4 (a AND 3) OR drop_bit 4 b) = a"
    "push_bit 4 ((push_bit 4 (a AND 3) OR drop_bit 4 b) AND 15)
       OR drop_bit 2 (push_bit 2 (b AND 15) OR drop_bit 6 c) = b"
    "push_bit 6 ((push_bit 2 (b AND 15) OR drop_bit 6 c) AND 3) OR (c AND 63) = c"
    "push_bit 2 (drop_bit 2 a) OR drop_bit 4 (push_bit 4 (a AND 3)) = a"
    "push_bit 4 ((push_bit 4 (a AND 3) OR drop_bit 4 b) AND 15)
       OR drop_bit 2 (push_bit 2 (b AND 15)) = b"
  unfolding numeral_eq_mask3 numeral_eq_mask15 numeral_eq_mask63
  by (rule byte_eqI; simp add: bit_simps)+


lemma a2b_step:
  assumes "v < 64"
  shows "a2b_base64 (b64_char v # rest) quad_pos leftchar pads out =
     (if quad_pos = 0 then a2b_base64 rest 1 v 0 out
      else if quad_pos = 1 then
        a2b_base64 rest 2 (v AND 15) 0 (out @ [push_bit 2 leftchar OR drop_bit 4 v])
      else if quad_pos = 2 then
        a2b_base64 rest 3 (v AND 3) 0 (out @ [push_bit 4 leftchar OR drop_bit 2 v])
      else
        a2b_base64 rest 0 0 0 (out @ [push_bit 6 leftchar OR v]))"
  using b64_char_props [OF assms] by simp

lemma a2b_pad:
  "a2b_base64 (CHR ''='' # rest) quad_pos leftchar pads out =
     (if quad_pos \<ge> 2 \<and> quad_pos + (pads + 1) \<ge> 4 then Inr out
      else a2b_base64 rest quad_pos leftchar (if quad_pos \<ge> 2 then pads + 1 else pads) out)"
  by simp

lemma a2b_encode: "a2b_base64 (b64encode bs) 0 0 0 out = Inr (out @ bs)"
proof (induction bs arbitrary: out rule: b64encode.induct)
  case 1
  then show ?case by simp
next
  case (2 a)
  define v1 v2 where "v1 = drop_bit 2 a" and "v2 = push_bit 4 (a AND 3)"
  have lt: "v1 < 64" "v2 < 64"
    unfolding v1_def v2_def by (rule sextets)+
  have rg: "push_bit 2 v1 OR drop_bit 4 v2 = a"
    unfolding v1_def v2_def by (rule regroup)
  have enc: "b64encode [a] = [b64_char v1, b64_char v2, CHR ''='', CHR ''='']"
    by (simp add: v1_def v2_def)
  show ?case
    unfolding enc using rg by (simp add: a2b_step a2b_pad lt del: a2b_base64.simps(2))
next
  case (3 a b)
  define v1 v2 v3 where "v1 = drop_bit 2 a" and "v2 = push_bit 4 (a AND 3) OR drop_bit 4 b"
    and "v3 = push_bit 2 (b AND 15)"
  have lt: "v1 < 64" "v2 < 64" "v3 < 64"
    unfolding v1_def v2_def v3_def by (rule sextets)+
  have rg: "push_bit 2 v1 OR drop_bit 4 v2 = a" "push_bit 4 (v2 AND 15) OR drop_bit 2 v3 = b"
    unfolding v1_def v2_def v3_def by (rule regroup)+
  have enc: "b64encode [a, b] = [b64_char v1, b64_char v2, b64_char v3, CHR ''='']"
    by (simp add: v1_def v2_def v3_def)
  show ?case
    unfolding enc using rg by (simp add: a2b_step a2b_pad lt del: a2b_base64.simps(2))
next
  case (4 a b c rest)
  define v1 v2 v3 v4 where "v1 = drop_bit 2 a" and "v2 = push_bit 4 (a AND 3) OR drop_bit 4 b"
    and "v3 = push_bit 2 (b AND 15) OR drop_bit 6 c" and "v4 = c AND 63"
  have lt: "v1 < 64" "v2 < 64" "v3 < 64" "v4 < 64"
    unfolding v1_def v2_def v3_def v4_def by (rule sextets)+
  have rg: "push_bit 2 v1 OR drop_bit 4 v2 = a" "push_bit 4 (v2 AND 15) OR drop_bit 2 v3 = b"
    "push_bit 6 (v3 AND 3) OR v4 = c"
    unfolding v1_def v2_def v3_def v4_def by (rule regroup)+
  have enc: "b64encode (a # b # c # rest)
      = b64_char v1 # b64_char v2 # b64_char v3 # b64_char v4 # b64encode rest"
    by (simp add: v1_def v2_def v3_def v4_def)
  show ?case
    unfolding enc using "4.IH" [of "out @ [a, b, c]"] rg
    by (simp add: a2b_step a2b_pad lt del: a2b_base64.simps(2))
qed

lemma b64encode_ascii: "ch \<in> set (b64encode bs) \<Longrightarrow> (of_char ch :: nat) < 128"
proof (induction bs rule: b64encode.induct)
  case 1
  then show ?case by simp
next
  case (2 a)
  then show ?case
    using b64_char_props(3) [OF sextets(1), of a] b64_char_props(3) [OF sextets(5), of a]
    by auto
next
  case (3 a b)
  then show ?case
    using b64_char_props(3) [OF sextets(1), of a] b64_char_props(3) [OF sextets(2), of a b]
      b64_char_props(3) [OF sextets(6), of b]
    by auto
next
  case (4 a b c rest)
  then show ?case
    using b64_char_props(3) [OF sextets(1), of a] b64_char_props(3) [OF sextets(2), of a b]
      b64_char_props(3) [OF sextets(3), of b c] b64_char_props(3) [OF sextets(4), of c]
    by auto
qed

lemma b64decode_b64encode: "b64decode (b64encode bs) = Inr bs"
proof -
  have "\<not> (\<exists>ch \<in> set (b64encode bs). of_char ch \<ge> (128 :: nat))"
    using b64encode_ascii [of _ bs] by (auto simp: not_le)
  then show ?thesis
    using a2b_encode [of bs "[]"] by (simp add: b64decode_def)
qed

lemma b64encode_nonempty: "bs \<noteq> [] \<Longrightarrow> b64encode bs \<noteq> []"
  by (cases bs rule: b64encode.cases) simp_all

subsection \<open>A started session\<close>

text \<open>The session used in the instances: built, then started against an SDK that never
  fails, with no frame arriving during the handshake.\<close>

lemma started_state:
  "start default_env fresh =
     (None, (connected fresh)\<lparr>sent := handshake_events default_env fresh, yields := 6,
               logged := logged (connected fresh) @ [Log_info ''Nova Sonic ready for audio'']\<rparr>)"
  using start_quiet [of default_env fresh]
  by (simp add: default_env_def fresh_def init_def)

lemma started_session:
  "snd (start default_env fresh)
     = run_calls default_env [Start] (init ''prompt-1'' ''content-1'' ''audio-1'')"
  by (simp add: fresh_def)

lemma started_facts:
  "sent (snd (start default_env fresh)) = handshake_events default_env fresh"
  "closed (snd (start default_env fresh)) = 0"
  "cancelled (snd (start default_env fresh)) = 0"
  "audio_chunks_sent (snd (start default_env fresh)) = 0"
  "stream (snd (start default_env fresh)) = Some ()"
  "audio_content_name (snd (start default_env fresh)) = ''audio-1''"
  "prompt_name (snd (start default_env fresh)) = ''prompt-1''"
  "yields (snd (start default_env fresh)) = 6"
  "sink_calls (snd (start default_env fresh)) = []"
  unfolding started_state by (simp_all add: connected_def fresh_def init_def)

lemma started_active: "is_active (snd (start default_env fresh))"
  by (simp add: started_state connected_def)

lemma default_quiet: "arrivals default_env n = []"
  by (simp add: default_env_def)

section \<open>The claims\<close>




text \<open>
  Claim C1, which the code does not meet. On every active session \<^verbatim>\<open>stop()\<close> returns without
  raising, clears the active flag, closes the input stream once and leaves the draining task
  done. It hands no event to the stream: the flag is cleared before the three
  \<^verbatim>\<open>_send\<close> calls, and \<^verbatim>\<open>_send\<close> does nothing on an inactive session. The audio
  \<^verbatim>\<open>contentEnd\<close>, \<^verbatim>\<open>promptEnd\<close> and \<^verbatim>\<open>sessionEnd\<close> events of the claim are never
  emitted. The task is cancelled once when no frame reaches it during the two pauses of
  \<^verbatim>\<open>stop()\<close>; a frame that does makes it leave its loop by itself, and it is not cancelled.
\<close>
theorem stop_sends_no_shutdown_event:
  assumes "s = run_calls cfg calls (init p c a)" and "is_active s"
  shows "fst (stop cfg s) = None
       \<and> is_active (snd (stop cfg s)) = False
       \<and> sent (snd (stop cfg s)) = sent s
       \<and> closed (snd (stop cfg s)) = closed s + 1
       \<and> response_task (snd (stop cfg s)) = Some Task_done
       \<and> (cancelled (snd (stop cfg s)) = cancelled s
           \<or> cancelled (snd (stop cfg s)) = cancelled s + 1)
       \<and> (arrivals cfg (yields s) = [] \<and> arrivals cfg (Suc (yields s)) = [] \<longrightarrow>
            cancelled (snd (stop cfg s)) = cancelled s + 1)"
proof -
  have st: "stream s \<noteq> None" and tk: "response_task s = Some Task_running"
    using session_active_has_stream [OF assms] by simp_all
  note f = stop_active [OF assms(2) st tk, of cfg]
  have q: "arrivals cfg (yields s) = [] \<and> arrivals cfg (Suc (yields s)) = [] \<longrightarrow>
            cancelled (snd (stop cfg s)) = cancelled s + 1"
    using stop_active_quiet [OF assms(2) st tk, of cfg] by blast
  have i: "is_active (snd (stop cfg s)) = False"
    using stop_inactive [of cfg s] by simp
  show ?thesis using f i q by (intro conjI)
qed

theorem stop_sends_no_shutdown_event_witness:
  "is_active (snd (start default_env fresh))
   \<and> arrivals default_env (yields (snd (start default_env fresh))) = []
   \<and> fst (stop default_env (snd (start default_env fresh))) = None
   \<and> sent (snd (stop default_env (snd (start default_env fresh))))
       = handshake_events default_env fresh
   \<and> closed (snd (stop default_env (snd (start default_env fresh)))) = 1
   \<and> cancelled (snd (stop default_env (snd (start default_env fresh)))) = 1"
proof -
  let ?s = "snd (start default_env fresh)"
  note t = stop_sends_no_shutdown_event [OF started_session started_active]
  have a: "fst (stop default_env ?s) = None" using t by (rule conjunct1)
  have b: "sent (snd (stop default_env ?s)) = handshake_events default_env fresh"
    using t started_facts(1) by simp
  have c: "closed (snd (stop default_env ?s)) = 1"
    using t started_facts(2) by simp
  have d: "cancelled (snd (stop default_env ?s)) = 1"
    using t started_facts(3) default_quiet by simp
  show ?thesis using started_active default_quiet a b c d by (intro conjI)
qed

text \<open>
  Claim C8, which the code does not meet. On every active session a second \<^verbatim>\<open>stop()\<close> right
  after the first returns without raising and leaves the state as it is; the two calls
  together close the input stream once and cancel the draining task at most once, exactly
  once when no frame reaches the task during the pauses of the first call. They hand no
  event to the stream, where the claim has one shutdown sequence.
\<close>
theorem stop_twice:
  assumes "s = run_calls cfg calls (init p c a)" and "is_active s"
  shows "stop cfg (snd (stop cfg s)) = (None, snd (stop cfg s))
       \<and> sent (snd (stop cfg (snd (stop cfg s)))) = sent s
       \<and> closed (snd (stop cfg (snd (stop cfg s)))) = closed s + 1
       \<and> (cancelled (snd (stop cfg (snd (stop cfg s)))) = cancelled s
           \<or> cancelled (snd (stop cfg (snd (stop cfg s)))) = cancelled s + 1)
       \<and> (arrivals cfg (yields s) = [] \<and> arrivals cfg (Suc (yields s)) = [] \<longrightarrow>
            cancelled (snd (stop cfg (snd (stop cfg s)))) = cancelled s + 1)"
proof -
  have st: "stream s \<noteq> None" and tk: "response_task s = Some Task_running"
    using session_active_has_stream [OF assms] by simp_all
  note f = stop_active [OF assms(2) st tk, of cfg]
  have q: "arrivals cfg (yields s) = [] \<and> arrivals cfg (Suc (yields s)) = [] \<longrightarrow>
            cancelled (snd (stop cfg s)) = cancelled s + 1"
    using stop_active_quiet [OF assms(2) st tk, of cfg] by blast
  have again: "stop cfg (snd (stop cfg s)) = (None, snd (stop cfg s))"
    by (rule stop_inactive_noop) (rule stop_inactive)
  show ?thesis unfolding again snd_conv using f(2,3,5) q by (intro conjI) simp_all
qed

theorem stop_twice_witness:
  "is_active (snd (start default_env fresh))
   \<and> arrivals default_env (yields (snd (start default_env fresh))) = []
   \<and> stop default_env (snd (stop default_env (snd (start default_env fresh))))
       = (None, snd (stop default_env (snd (start default_env fresh))))
   \<and> sent (snd (stop default_env (snd (stop default_env (snd (start default_env fresh))))))
       = handshake_events default_env fresh
   \<and> cancelled (snd (stop default_env (snd (stop default_env (snd (start default_env fresh)))))) = 1"
proof -
  let ?s = "snd (start default_env fresh)"
  note t = stop_twice [OF started_session started_active]
  have a: "stop default_env (snd (stop default_env ?s)) = (None, snd (stop default_env ?s))"
    using t by (rule conjunct1)
  have b: "sent (snd (stop default_env (snd (stop default_env ?s)))) = handshake_events default_env fresh"
    using t [THEN conjunct2, THEN conjunct1] started_facts(1) by simp
  have "cancelled (snd (stop default_env (snd (stop default_env ?s)))) = cancelled ?s + 1"
    using t [THEN conjunct2, THEN conjunct2, THEN conjunct2, THEN conjunct2] default_quiet by blast
  then have c: "cancelled (snd (stop default_env (snd (stop default_env ?s)))) = 1"
    using started_facts(3) by simp
  show ?thesis using started_active default_quiet a b c by (intro conjI)
qed

text \<open>
  Claim C2. Take a session just built, or any session just after \<^verbatim>\<open>stop()\<close>, and let any
  calls follow in which no \<^verbatim>\<open>start()\<close> returns without raising. Then \<^verbatim>\<open>send_audio\<close>
  raises nothing and leaves the whole state as it is, the list of sent events included.
\<close>
theorem send_audio_noop_unless_started:
  "(no_start_succeeds cfg calls (init p c a) \<longrightarrow>
      send_audio cfg pcm (run_calls cfg calls (init p c a))
        = (None, run_calls cfg calls (init p c a)))
   \<and> (no_start_succeeds cfg calls (snd (stop cfg s)) \<longrightarrow>
      send_audio cfg pcm (run_calls cfg calls (snd (stop cfg s)))
        = (None, run_calls cfg calls (snd (stop cfg s))))"
proof (intro conjI impI)
  assume "no_start_succeeds cfg calls (init p c a)"
  then have "\<not> is_active (run_calls cfg calls (init p c a))"
    by (intro run_calls_stays_inactive) (simp_all add: init_def)
  then show "send_audio cfg pcm (run_calls cfg calls (init p c a))
        = (None, run_calls cfg calls (init p c a))"
    by (rule send_audio_inactive)
next
  assume "no_start_succeeds cfg calls (snd (stop cfg s))"
  then have "\<not> is_active (run_calls cfg calls (snd (stop cfg s)))"
    by (intro run_calls_stays_inactive) (simp_all add: stop_inactive)
  then show "send_audio cfg pcm (run_calls cfg calls (snd (stop cfg s)))
        = (None, run_calls cfg calls (snd (stop cfg s)))"
    by (rule send_audio_inactive)
qed

lemma failed_start_state:
  "start failing_open_env fresh =
     (Some (Exception ''no credentials''),
      fresh\<lparr>opened := 1,
             logged := [Log_info ''Connecting to Nova Sonic...'',
                        Log_error ''Failed to start Nova Sonic session: '' (Exception ''no credentials'')],
             is_active := False\<rparr>)"
  using start_open_raises [of failing_open_env fresh "Exception ''no credentials''"]
  by (simp add: failing_open_env_def default_env_def fresh_def init_def)

lemma failed_start_inactive: "\<not> is_active (snd (start failing_open_env fresh))"
  by (simp add: failed_start_state)

theorem send_audio_noop_unless_started_witness:
  "no_start_succeeds failing_open_env [Start, Send_audio [1, 2]] fresh
   \<and> send_audio failing_open_env [3, 4] (snd (start failing_open_env fresh))
       = (None, snd (start failing_open_env fresh))
   \<and> sent (snd (start failing_open_env fresh)) = []
   \<and> no_start_succeeds default_env [Send_audio [1, 2], Stop] (snd (stop default_env (snd (start default_env fresh))))
   \<and> send_audio default_env [3, 4] (snd (stop default_env (snd (start default_env fresh))))
       = (None, snd (stop default_env (snd (start default_env fresh))))"
proof -
  let ?f = "snd (start failing_open_env fresh)"
  let ?t = "snd (stop default_env (snd (start default_env fresh)))"
  have a: "no_start_succeeds failing_open_env [Start, Send_audio [1, 2]] (init ''prompt-1'' ''content-1'' ''audio-1'')"
    using failed_start_state by (simp add: fresh_def)
  have b: "run_calls failing_open_env [Start, Send_audio [1, 2]] (init ''prompt-1'' ''content-1'' ''audio-1'') = ?f"
    using failed_start_inactive by (simp add: send_audio_inactive fresh_def)
  have c: "no_start_succeeds default_env [Send_audio [1, 2], Stop] ?t"
    by simp
  have d: "run_calls default_env [Send_audio [1, 2], Stop] ?t = ?t"
    using stop_inactive [of default_env "snd (start default_env fresh)"]
    by (simp add: send_audio_inactive stop_inactive_noop)
  have e: "sent ?f = []"
    unfolding failed_start_state by (simp add: fresh_def init_def)
  have f: "send_audio failing_open_env [3, 4] ?f = (None, ?f)"
    using a b
      send_audio_noop_unless_started [of failing_open_env "[Start, Send_audio [1, 2]]"
        "''prompt-1''" "''content-1''" "''audio-1''" "[3, 4]" fresh]
    by simp
  have g: "send_audio default_env [3, 4] ?t = (None, ?t)"
    using c d
      send_audio_noop_unless_started [of default_env "[Send_audio [1, 2], Stop]"
        "''prompt-1''" "''content-1''" "''audio-1''" "[3, 4]" "snd (start default_env fresh)"]
    by simp
  show ?thesis
    using a c e f g by (simp only: fresh_def simp_thms)
qed

lemma send_audio_active:
  assumes "is_active s" and "stream s \<noteq> None"
  shows "send_audio cfg pcm s =
           (case send_result cfg (length (sent s)) of
              None \<Rightarrow>
                (None, s\<lparr>audio_chunks_sent := audio_chunks_sent s + 1,
                          sent := sent s @ [audio_input_event s pcm]\<rparr>)
            | Some e \<Rightarrow>
                (Some e, s\<lparr>audio_chunks_sent := audio_chunks_sent s + 1,
                            sent := sent s @ [audio_input_event s pcm],
                            logged := logged s @ [Log_error ''Error sending to Nova Sonic: '' e],
                            is_active := False\<rparr>))"
proof -
  let ?s1 = "s\<lparr>audio_chunks_sent := audio_chunks_sent s + 1\<rparr>"
  have ev: "audio_input_event ?s1 pcm = audio_input_event s pcm"
    by (rule audio_input_event_cong) simp_all
  show ?thesis
    using assms ev
    by (simp add: send_audio_def send_event_def log_error_def Let_def split: option.splits)
qed

text \<open>
  Claim C4. On every active session \<^verbatim>\<open>send_audio\<close> hands exactly one more event to the
  stream: an \<^verbatim>\<open>audioInput\<close> event whose content is the base64 encoding of the given bytes,
  whose content name is the session's audio-content identifier and whose prompt name is the
  session's prompt identifier. The instance below is the sixteen bytes \<^verbatim>\<open>b"\x00\x01"*8\<close>.
\<close>
theorem send_audio_emits_audio_input:
  assumes "s = run_calls cfg calls (init p c a)" and "is_active s"
  shows "sent (snd (send_audio cfg pcm s)) = sent s @ [audio_input_event s pcm]
       \<and> event_tag (audio_input_event s pcm) = Some ''audioInput''
       \<and> event_field ''content'' (audio_input_event s pcm) = Some (JStr (b64encode pcm))
       \<and> event_field ''contentName'' (audio_input_event s pcm) = Some (JStr (audio_content_name s))
       \<and> event_field ''promptName'' (audio_input_event s pcm) = Some (JStr (prompt_name s))"
proof -
  have st: "stream s \<noteq> None"
    using session_active_has_stream [OF assms] by simp
  have "sent (snd (send_audio cfg pcm s)) = sent s @ [audio_input_event s pcm]"
    by (simp add: send_audio_active [OF assms(2) st] split: option.splits)
  then show ?thesis
    by (simp add: audio_input_event_def event_def)
qed

lemma b64encode_scenario: "b64encode (concat (replicate 8 [0, 1])) = ''AAEAAQABAAEAAQABAAEAAQ==''"
  by code_simp

theorem send_audio_emits_audio_input_witness:
  "is_active (snd (start default_env fresh))
   \<and> sent (snd (send_audio default_env (concat (replicate 8 [0, 1])) (snd (start default_env fresh))))
       = handshake_events default_env fresh
         @ [event ''audioInput''
              (JObj [(''promptName'', JStr ''prompt-1''), (''contentName'', JStr ''audio-1''),
                     (''content'', JStr ''AAEAAQABAAEAAQABAAEAAQ=='')])]"
proof -
  note t = send_audio_emits_audio_input [OF started_session started_active,
      of "concat (replicate 8 [0, 1])"]
  have "sent (snd (send_audio default_env (concat (replicate 8 [0, 1])) (snd (start default_env fresh))))
       = handshake_events default_env fresh
         @ [audio_input_event (snd (start default_env fresh)) (concat (replicate 8 [0, 1]))]"
    using t [THEN conjunct1] started_facts(1) by simp
  moreover have "audio_input_event (snd (start default_env fresh)) (concat (replicate 8 [0, 1]))
     = event ''audioInput''
              (JObj [(''promptName'', JStr ''prompt-1''), (''contentName'', JStr ''audio-1''),
                     (''content'', JStr ''AAEAAQABAAEAAQABAAEAAQ=='')])"
    unfolding audio_input_event_def b64encode_scenario started_facts by (rule refl)
  ultimately show ?thesis using started_active by simp
qed

text \<open>
  Claim C6. On every active session, when the stream's send raises inside \<^verbatim>\<open>send_audio\<close>,
  the same exception reaches the caller, the active flag is false afterwards, and the event
  was handed to the stream once only: there is no second attempt.
\<close>
theorem send_audio_failure_is_fatal:
  assumes "s = run_calls cfg calls (init p c a)" and "is_active s"
    and "send_result cfg (length (sent s)) = Some e"
  shows "fst (send_audio cfg pcm s) = Some e
       \<and> is_active (snd (send_audio cfg pcm s)) = False
       \<and> sent (snd (send_audio cfg pcm s)) = sent s @ [audio_input_event s pcm]"
proof -
  have st: "stream s \<noteq> None"
    using session_active_has_stream [OF assms(1,2)] by simp
  show ?thesis
    using assms(3) by (simp add: send_audio_active [OF assms(2) st])
qed

lemma started_failing_state:
  "start (failing_sends_env 6) fresh =
     (None, (connected fresh)\<lparr>sent := handshake_events (failing_sends_env 6) fresh, yields := 6,
               logged := logged (connected fresh) @ [Log_info ''Nova Sonic ready for audio'']\<rparr>)"
  using start_quiet [of "failing_sends_env 6" fresh]
  by (simp add: failing_sends_env_def default_env_def fresh_def init_def)

lemma started_failing_session:
  "snd (start (failing_sends_env 6) fresh)
     = run_calls (failing_sends_env 6) [Start] (init ''prompt-1'' ''content-1'' ''audio-1'')"
  by (simp add: fresh_def)

lemma started_failing_facts:
  "is_active (snd (start (failing_sends_env 6) fresh))"
  "length (sent (snd (start (failing_sends_env 6) fresh))) = 6"
  "audio_chunks_sent (snd (start (failing_sends_env 6) fresh)) = 0"
  unfolding started_failing_state
  by (simp_all add: connected_def fresh_def init_def handshake_events_def)

lemma sixth_send_fails: "send_result (failing_sends_env 6) 6 = Some (Exception ''stream closed'')"
  by (simp add: failing_sends_env_def)

theorem send_audio_failure_is_fatal_witness:
  "is_active (snd (start (failing_sends_env 6) fresh))
   \<and> send_result (failing_sends_env 6) (length (sent (snd (start (failing_sends_env 6) fresh))))
       = Some (Exception ''stream closed'')
   \<and> fst (send_audio (failing_sends_env 6) [0, 1] (snd (start (failing_sends_env 6) fresh)))
       = Some (Exception ''stream closed'')
   \<and> is_active (snd (send_audio (failing_sends_env 6) [0, 1] (snd (start (failing_sends_env 6) fresh))))
       = False"
proof -
  have f: "send_result (failing_sends_env 6) (length (sent (snd (start (failing_sends_env 6) fresh))))
       = Some (Exception ''stream closed'')"
    unfolding started_failing_facts by (rule sixth_send_fails)
  note t = send_audio_failure_is_fatal [OF started_failing_session started_failing_facts(1) f, of "[0, 1]"]
  show ?thesis
    using started_failing_facts(1) f t [THEN conjunct1] t [THEN conjunct2, THEN conjunct1]
    by (intro conjI)
qed

text \<open>
  Claim C10. On an active session \<^verbatim>\<open>send_audio\<close> adds one to \<^verbatim>\<open>audio_chunks_sent\<close>,
  also when the send then raises; on an inactive session the counter keeps its value.
\<close>
theorem send_audio_counts_attempts:
  "(is_active s \<longrightarrow>
      audio_chunks_sent (snd (send_audio cfg pcm s)) = audio_chunks_sent s + 1)
   \<and> (is_active s \<and> stream s \<noteq> None \<and> send_result cfg (length (sent s)) = Some e \<longrightarrow>
      fst (send_audio cfg pcm s) = Some e
      \<and> audio_chunks_sent (snd (send_audio cfg pcm s)) = audio_chunks_sent s + 1)
   \<and> (\<not> is_active s \<longrightarrow>
      audio_chunks_sent (snd (send_audio cfg pcm s)) = audio_chunks_sent s)"
proof (intro conjI impI)
  assume "is_active s"
  then show "audio_chunks_sent (snd (send_audio cfg pcm s)) = audio_chunks_sent s + 1"
    by (simp add: send_audio_def Let_def send_event_keeps)
next
  assume a: "is_active s \<and> stream s \<noteq> None \<and> send_result cfg (length (sent s)) = Some e"
  then show "fst (send_audio cfg pcm s) = Some e"
    by (simp add: send_audio_active)
  from a show "audio_chunks_sent (snd (send_audio cfg pcm s)) = audio_chunks_sent s + 1"
    by (simp add: send_audio_active)
next
  assume "\<not> is_active s"
  then show "audio_chunks_sent (snd (send_audio cfg pcm s)) = audio_chunks_sent s"
    by (simp add: send_audio_inactive)
qed

theorem send_audio_counts_attempts_witness:
  "is_active (snd (start (failing_sends_env 6) fresh))
   \<and> stream (snd (start (failing_sends_env 6) fresh)) \<noteq> None
   \<and> send_result (failing_sends_env 6) (length (sent (snd (start (failing_sends_env 6) fresh))))
       = Some (Exception ''stream closed'')
   \<and> fst (send_audio (failing_sends_env 6) [0, 1] (snd (start (failing_sends_env 6) fresh)))
       = Some (Exception ''stream closed'')
   \<and> audio_chunks_sent (snd (send_audio (failing_sends_env 6) [0, 1] (snd (start (failing_sends_env 6) fresh)))) = 1
   \<and> \<not> is_active fresh
   \<and> audio_chunks_sent (snd (send_audio default_env [0, 1] fresh)) = 0"
proof -
  let ?s = "snd (start (failing_sends_env 6) fresh)"
  have f: "send_result (failing_sends_env 6) (length (sent ?s)) = Some (Exception ''stream closed'')"
    unfolding started_failing_facts by (rule sixth_send_fails)
  have st: "stream ?s \<noteq> None"
    unfolding started_failing_state by (simp add: connected_def)
  have n: "\<not> is_active fresh" "audio_chunks_sent fresh = 0"
    by (simp_all add: fresh_def init_def)
  note t = send_audio_counts_attempts [where s = ?s and cfg = "failing_sends_env 6"
      and e = "Exception ''stream closed''" and pcm = "[0, 1]"]
  note u = send_audio_counts_attempts [where s = fresh and cfg = default_env
      and e = "Exception ''stream closed''" and pcm = "[0, 1]"]
  have a: "fst (send_audio (failing_sends_env 6) [0, 1] ?s) = Some (Exception ''stream closed'')"
    using t started_failing_facts(1) st f by blast
  have b: "audio_chunks_sent (snd (send_audio (failing_sends_env 6) [0, 1] ?s)) = 1"
    using t started_failing_facts(1,3) by simp
  have c: "audio_chunks_sent (snd (send_audio default_env [0, 1] fresh)) = 0"
    using u n by simp
  show ?thesis
    using started_failing_facts(1) st f a b n(1) c by (intro conjI)
qed








lemma handle_audio_frame:
  assumes "c \<noteq> []" and "b64decode c = Inr bs"
  shows "handle_json cb role (event ''audioOutput'' (JObj [(''content'', JStr c)])) s =
           (case cb bs of Some e \<Rightarrow> Inl e | None \<Rightarrow> Inr role,
            s\<lparr>sink_calls := sink_calls s @ [bs]\<rparr>)"
  using assms
  by (simp add: handle_json_def event_def dispatch_def on_audio_output_def Let_def
      split: option.splits)

lemma handle_empty_audio_frame:
  "handle_json cb role (event ''audioOutput'' (JObj [(''content'', JStr [])])) s = (Inr role, s)"
  by (simp add: handle_json_def event_def dispatch_def on_audio_output_def)

lemma receive_audio_frame:
  assumes "c \<noteq> []" and "b64decode c = Inr bs"
  shows "on_receive cb role (audio_output_frame c) s =
           (case cb bs of Some e \<Rightarrow> Inl (Raised e) | None \<Rightarrow> Inr role,
            s\<lparr>sink_calls := sink_calls s @ [bs]\<rparr>)"
  by (simp add: on_receive_def audio_output_frame_def handle_audio_frame [OF assms]
      split: option.splits)

lemma resume_audio_frame:
  assumes "c \<noteq> []" and "b64decode c = Inr bs"
  shows "resume_loop cb role (audio_output_frame c # rs) s =
           (case cb bs of
              None \<Rightarrow> drain_loop cb role rs (s\<lparr>sink_calls := sink_calls s @ [bs]\<rparr>)
            | Some e \<Rightarrow> (Raised e, s\<lparr>sink_calls := sink_calls s @ [bs]\<rparr>))"
  by (simp add: receive_audio_frame [OF assms] split: option.splits)

lemma drain_audio_frame:
  assumes "is_active s" and "c \<noteq> []" and "b64decode c = Inr bs"
  shows "drain_loop cb role (audio_output_frame c # rs) s =
           (case cb bs of
              None \<Rightarrow> drain_loop cb role rs (s\<lparr>sink_calls := sink_calls s @ [bs]\<rparr>)
            | Some e \<Rightarrow> (Raised e, s\<lparr>sink_calls := sink_calls s @ [bs]\<rparr>))"
  using assms(1) by (simp add: receive_audio_frame [OF assms(2,3)] split: option.splits)

lemma task_body_sink_calls:
  "sink_calls (snd (task_body cb role rs s)) = sink_calls (snd (drain_loop cb role rs s))"
proof -
  obtain x s' where d: "drain_loop cb role rs s = (x, s')"
    by (cases "drain_loop cb role rs s")
  show ?thesis
    using d by (cases x) (simp_all add: task_body_def after_loop_def task_finished_def log_error_def)
qed

lemma drain_loop_audio_frames:
  assumes "is_active s"
    and "\<forall>(c, bs) \<in> set frames. c \<noteq> [] \<and> b64decode c = Inr bs"
    and "\<forall>(c, bs) \<in> set (butlast frames). cb bs = None"
  shows "sink_calls (snd (drain_loop cb role (map (\<lambda>(c, bs). audio_output_frame c) frames) s))
           = sink_calls s @ map snd frames"
  using assms
proof (induction frames arbitrary: s)
  case Nil
  then show ?case by simp
next
  case (Cons f frames)
  obtain c bs where f: "f = (c, bs)" by (cases f)
  have ok: "c \<noteq> []" "b64decode c = Inr bs"
    using Cons.prems(2) f by simp_all
  let ?s1 = "s\<lparr>sink_calls := sink_calls s @ [bs]\<rparr>"
  note h = drain_audio_frame [OF Cons.prems(1) ok, of cb role "map (\<lambda>(c, bs). audio_output_frame c) frames"]
  show ?case
  proof (cases "cb bs")
    case (Some e)
    have "frames = []"
    proof (rule ccontr)
      assume "frames \<noteq> []"
      then have "(c, bs) \<in> set (butlast (f # frames))" using f by simp
      then have "cb bs = None" using Cons.prems(3) by blast
      then show False using Some by simp
    qed
    then show ?thesis
      using f h Some by simp
  next
    case None
    have step: "drain_loop cb role (map (\<lambda>(c, bs). audio_output_frame c) (f # frames)) s
        = drain_loop cb role (map (\<lambda>(c, bs). audio_output_frame c) frames) ?s1"
      using f h None by simp
    have "\<forall>(c, bs) \<in> set (butlast frames). cb bs = None"
      using Cons.prems(3) by (cases "frames = []") auto
    then have "sink_calls (snd (drain_loop cb role (map (\<lambda>(c, bs). audio_output_frame c) frames) ?s1))
           = sink_calls ?s1 @ map snd frames"
      using Cons.prems by (intro Cons.IH) simp_all
    then show ?thesis using step f by simp
  qed
qed

lemma on_receive_not_awaiting: "on_receive cb role r s \<noteq> (Inl (Awaiting x), s')"
proof (cases r)
  case (Recv_json j)
  obtain res s1 where h: "handle_json cb role j s = (res, s1)"
    by (cases "handle_json cb role j s")
  show ?thesis using Recv_json h by (cases res) (simp_all add: on_receive_def)
qed (simp_all add: on_receive_def)

text \<open>Frames the loop got through, followed by more frames.\<close>

lemma drain_loop_append:
  "drain_loop cb role pre s = (Awaiting role', s') \<Longrightarrow>
   drain_loop cb role (pre @ rs) s = drain_loop cb role' rs s'"
proof (induction pre arbitrary: role s)
  case Nil
  then show ?case by (cases rs) (auto split: if_splits)
next
  case (Cons r pre)
  have a: "is_active s" using Cons.prems by (auto split: if_splits)
  obtain res s1 where h: "on_receive cb role r s = (res, s1)"
    by (cases "on_receive cb role r s")
  show ?case
  proof (cases res)
    case (Inl x)
    then show ?thesis using Cons.prems a h on_receive_not_awaiting [of cb role r s role' s'] by simp
  next
    case (Inr role1)
    then have "drain_loop cb role1 pre s1 = (Awaiting role', s')"
      using Cons.prems a h by simp
    then have "drain_loop cb role1 (pre @ rs) s1 = drain_loop cb role' rs s'"
      by (rule Cons.IH)
    then show ?thesis using a h Inr by simp
  qed
qed

lemma drain_loop_awaiting_active: "drain_loop cb role rs s = (Awaiting role', s') \<Longrightarrow> is_active s'"
proof (induction rs arbitrary: role s)
  case Nil
  then show ?case by (auto split: if_splits)
next
  case (Cons r rs)
  have a: "is_active s" using Cons.prems by (auto split: if_splits)
  obtain res s1 where h: "on_receive cb role r s = (res, s1)"
    by (cases "on_receive cb role r s")
  show ?case
  proof (cases res)
    case (Inl x)
    then show ?thesis using Cons.prems a h on_receive_not_awaiting [of cb role r s role' s'] by simp
  next
    case (Inr role1)
    then show ?thesis using Cons.prems a h Cons.IH [of role1 s1] by simp
  qed
qed

text \<open>
  Claim C5, amended. An audio output frame
  \<^verbatim>\<open>{"event": {"audioOutput": {"content": c}}}\<close> with a non-empty content that
  base64-decodes, received at any point of the task's life (any value of \<^verbatim>\<open>role\<close>, any
  state, whatever was received before and whatever follows), makes exactly one call of the
  sink, with the decoded bytes; then the loop goes on with the next frame, or ends with what
  the sink raised. This holds at the test of the loop on an active session, and for a task
  suspended in its receive. After any frames that the task got through, audio frames that
  follow reach the sink once each, in their order, as long as every sink call but possibly
  the last returns. A frame with empty content is passed over without a sink call.
\<close>
theorem audio_output_reaches_sink:
  "(is_active s \<and> c \<noteq> [] \<and> b64decode c = Inr bs \<longrightarrow>
      drain_loop cb role (audio_output_frame c # rs) s =
        (case cb bs of
           None \<Rightarrow> drain_loop cb role rs (s\<lparr>sink_calls := sink_calls s @ [bs]\<rparr>)
         | Some e \<Rightarrow> (Raised e, s\<lparr>sink_calls := sink_calls s @ [bs]\<rparr>)))
   \<and> (c \<noteq> [] \<and> b64decode c = Inr bs \<longrightarrow>
      resume_loop cb role (audio_output_frame c # rs) s =
        (case cb bs of
           None \<Rightarrow> drain_loop cb role rs (s\<lparr>sink_calls := sink_calls s @ [bs]\<rparr>)
         | Some e \<Rightarrow> (Raised e, s\<lparr>sink_calls := sink_calls s @ [bs]\<rparr>)))
   \<and> (drain_loop cb role pre s = (Awaiting role', s')
       \<and> (\<forall>(c, bs) \<in> set frames. c \<noteq> [] \<and> b64decode c = Inr bs)
       \<and> (\<forall>(c, bs) \<in> set (butlast frames). cb bs = None) \<longrightarrow>
      sink_calls (snd (task_body cb role (pre @ map (\<lambda>(c, bs). audio_output_frame c) frames) s))
        = sink_calls s' @ map snd frames)
   \<and> (is_active s \<longrightarrow>
      drain_loop cb role (audio_output_frame [] # rs) s = drain_loop cb role rs s)"
proof (intro conjI impI)
  assume "is_active s \<and> c \<noteq> [] \<and> b64decode c = Inr bs"
  then show "drain_loop cb role (audio_output_frame c # rs) s =
        (case cb bs of
           None \<Rightarrow> drain_loop cb role rs (s\<lparr>sink_calls := sink_calls s @ [bs]\<rparr>)
         | Some e \<Rightarrow> (Raised e, s\<lparr>sink_calls := sink_calls s @ [bs]\<rparr>))"
    using drain_audio_frame [of s c bs cb role rs] by blast
next
  assume "c \<noteq> [] \<and> b64decode c = Inr bs"
  then show "resume_loop cb role (audio_output_frame c # rs) s =
        (case cb bs of
           None \<Rightarrow> drain_loop cb role rs (s\<lparr>sink_calls := sink_calls s @ [bs]\<rparr>)
         | Some e \<Rightarrow> (Raised e, s\<lparr>sink_calls := sink_calls s @ [bs]\<rparr>))"
    using resume_audio_frame [of c bs cb role rs s] by blast
next
  assume h: "drain_loop cb role pre s = (Awaiting role', s')
       \<and> (\<forall>(c, bs) \<in> set frames. c \<noteq> [] \<and> b64decode c = Inr bs)
       \<and> (\<forall>(c, bs) \<in> set (butlast frames). cb bs = None)"
  then have a: "is_active s'" using drain_loop_awaiting_active by blast
  have "drain_loop cb role (pre @ map (\<lambda>(c, bs). audio_output_frame c) frames) s
      = drain_loop cb role' (map (\<lambda>(c, bs). audio_output_frame c) frames) s'"
    using h by (intro drain_loop_append) simp
  moreover have "sink_calls (snd (drain_loop cb role' (map (\<lambda>(c, bs). audio_output_frame c) frames) s'))
      = sink_calls s' @ map snd frames"
    using a h by (intro drain_loop_audio_frames) simp_all
  ultimately show "sink_calls (snd (task_body cb role (pre @ map (\<lambda>(c, bs). audio_output_frame c) frames) s))
        = sink_calls s' @ map snd frames"
    by (simp add: task_body_sink_calls)
next
  assume "is_active s"
  then show "drain_loop cb role (audio_output_frame [] # rs) s = drain_loop cb role rs s"
    by (simp add: on_receive_def audio_output_frame_def handle_empty_audio_frame)
qed

lemma b64decode_examples:
  "b64decode ''AAEAAQABAAEAAQABAAEAAQ=='' = Inr (concat (replicate 8 [0, 1]))"
  "b64decode ''/+8='' = Inr [255, 239]"
  "b64decode [] = Inr []"
  by code_simp+

lemma content_start_frame:
  "is_active s \<Longrightarrow>
   drain_loop cb role
     [Recv_json (event ''contentStart'' (JObj [(''role'', JStr ''ASSISTANT'')]))] s
     = (Awaiting (JStr ''ASSISTANT''), log_info ''Event: contentStart'' s)"
  by (simp add: on_receive_def handle_json_def event_def dispatch_def on_content_start_def
      log_info_def)

theorem audio_output_reaches_sink_witness:
  "is_active (snd (start default_env fresh))
   \<and> b64decode ''/+8='' = Inr [255, 239]
   \<and> drain_loop (\<lambda>bs. None) (JStr ''ASSISTANT'') [audio_output_frame ''/+8='']
        (snd (start default_env fresh))
       = (Awaiting (JStr ''ASSISTANT''), (snd (start default_env fresh))\<lparr>sink_calls := [[255, 239]]\<rparr>)
   \<and> drain_loop (\<lambda>bs. None) JNull
        [Recv_json (event ''contentStart'' (JObj [(''role'', JStr ''ASSISTANT'')]))]
        (snd (start default_env fresh))
       = (Awaiting (JStr ''ASSISTANT''), log_info ''Event: contentStart'' (snd (start default_env fresh)))
   \<and> sink_calls (snd (process_responses (\<lambda>bs. None)
        [Recv_json (event ''contentStart'' (JObj [(''role'', JStr ''ASSISTANT'')])),
         audio_output_frame ''AAEAAQABAAEAAQABAAEAAQ=='', audio_output_frame ''/+8='']
        (snd (start default_env fresh))))
       = [concat (replicate 8 [0, 1]), [255, 239]]
   \<and> drain_loop (\<lambda>bs. None) JNull [audio_output_frame []] (snd (start default_env fresh))
       = (Awaiting JNull, snd (start default_env fresh))"
proof -
  let ?s = "snd (start default_env fresh)"
  let ?cb = "\<lambda>bs :: byte list. None :: exc option"
  let ?pre = "[Recv_json (event ''contentStart'' (JObj [(''role'', JStr ''ASSISTANT'')]))]"
  let ?frames = "[(''AAEAAQABAAEAAQABAAEAAQ=='', concat (replicate 8 [0, 1])), (''/+8='', [255, 239 :: byte])]"
  have ne: "''/+8='' \<noteq> []" by simp
  note one = audio_output_reaches_sink [where s = ?s and c = "''/+8=''" and bs = "[255, 239]"
      and cb = ?cb and role = "JStr ''ASSISTANT''" and rs = "[]" and pre = "[]" and frames = "[]"
      and role' = "JStr ''ASSISTANT''" and s' = ?s]
  have a: "drain_loop ?cb (JStr ''ASSISTANT'') [audio_output_frame ''/+8=''] ?s
       = (Awaiting (JStr ''ASSISTANT''), ?s\<lparr>sink_calls := [[255, 239]]\<rparr>)"
    using one [THEN conjunct1] started_active ne b64decode_examples(2) started_facts(9) by simp
  have p: "drain_loop ?cb JNull ?pre ?s = (Awaiting (JStr ''ASSISTANT''), log_info ''Event: contentStart'' ?s)"
    using started_active by (rule content_start_frame)
  have v: "\<forall>(c, bs) \<in> set ?frames. c \<noteq> [] \<and> b64decode c = Inr bs"
    using b64decode_examples by simp
  have k: "\<forall>(c, bs) \<in> set (butlast ?frames). ?cb bs = None"
    by simp
  note seq = audio_output_reaches_sink [where s = ?s and cb = ?cb and role = JNull and pre = ?pre
      and frames = ?frames and role' = "JStr ''ASSISTANT''"
      and s' = "log_info ''Event: contentStart'' ?s" and c = "[]" and bs = "[]" and rs = "[]"]
  have "sink_calls (snd (task_body ?cb JNull (?pre @ map (\<lambda>(c, bs). audio_output_frame c) ?frames) ?s))
      = sink_calls (log_info ''Event: contentStart'' ?s) @ map snd ?frames"
    using seq [THEN conjunct2, THEN conjunct2, THEN conjunct1] p v k by blast
  then have b: "sink_calls (snd (process_responses ?cb
        [Recv_json (event ''contentStart'' (JObj [(''role'', JStr ''ASSISTANT'')])),
         audio_output_frame ''AAEAAQABAAEAAQABAAEAAQ=='', audio_output_frame ''/+8=''] ?s))
       = [concat (replicate 8 [0, 1]), [255, 239]]"
    using started_facts(9) by (simp add: process_responses_def log_info_def)
  have c: "drain_loop ?cb JNull [audio_output_frame []] ?s = (Awaiting JNull, ?s)"
    using seq [THEN conjunct2, THEN conjunct2, THEN conjunct2] started_active by simp
  show ?thesis
    using started_active b64decode_examples(2) a p b c by (intro conjI)
qed

text \<open>
  The claim as first stated covers every content string. The empty string is the base64
  encoding of no bytes, and the guard \<^verbatim>\<open>if audio_content:\<close> keeps it from the sink: the
  sink is not called once with the empty chunk, it is not called.
\<close>

theorem empty_audio_output_skips_sink:
  "is_active (snd (start default_env fresh))
   \<and> b64decode_value (JStr []) = Inr []
   \<and> sink_calls (snd (process_responses (\<lambda>bs. None) [audio_output_frame []]
        (snd (start default_env fresh)))) = []
   \<and> sink_calls (snd (process_responses (\<lambda>bs. None) [audio_output_frame []]
        (snd (start default_env fresh)))) \<noteq> [[]]"
proof -
  have "sink_calls (snd (process_responses (\<lambda>bs. None) [audio_output_frame []]
        (snd (start default_env fresh)))) = []"
    unfolding process_responses_def task_body_sink_calls
    using started_active started_facts(9)
    by (simp add: on_receive_def audio_output_frame_def handle_empty_audio_frame)
  then show ?thesis
    using started_active b64decode_examples(3) by simp
qed

text \<open>Since decoding undoes encoding, the frames may be any non-empty chunks encoded by the
  standard encoder.\<close>

lemma encoded_chunks_reach_sink:
  assumes "is_active s" and "[] \<notin> set chunks" and "\<forall>bs \<in> set (butlast chunks). cb bs = None"
  shows "sink_calls (snd (process_responses cb (map (\<lambda>bs. audio_output_frame (b64encode bs)) chunks) s))
           = sink_calls s @ chunks"
proof -
  let ?frames = "map (\<lambda>bs. (b64encode bs, bs)) chunks"
  have ne: "b64encode bs \<noteq> []" if "bs \<in> set chunks" for bs
    using that assms(2) by (intro b64encode_nonempty) auto
  have v: "\<forall>(c, bs) \<in> set ?frames. c \<noteq> [] \<and> b64decode c = Inr bs"
    using ne by (auto simp: b64decode_b64encode)
  have "butlast ?frames = map (\<lambda>bs. (b64encode bs, bs)) (butlast chunks)"
    by (simp add: map_butlast)
  then have k: "\<forall>(c, bs) \<in> set (butlast ?frames). cb bs = None"
    using assms(3) by auto
  have "sink_calls (snd (drain_loop cb JNull (map (\<lambda>(c, bs). audio_output_frame c) ?frames) s))
           = sink_calls s @ map snd ?frames"
    using assms(1) v k by (rule drain_loop_audio_frames)
  then show ?thesis
    by (simp add: process_responses_def task_body_sink_calls comp_def)
qed

lemma handle_unrecognised:
  assumes "''contentStart'' \<notin> set (map fst kvs)" and "''textOutput'' \<notin> set (map fst kvs)"
    and "''audioOutput'' \<notin> set (map fst kvs)"
  shows "handle_json cb role (JObj [(''event'', JObj kvs)]) s
           = (Inr role, log_info (''Event: '' @ first_key kvs) s)"
proof (cases kvs)
  case Nil
  then show ?thesis by (simp add: handle_json_def dispatch_def)
next
  case (Cons kv kvs')
  then have "fst kv \<noteq> ''audioOutput''" using assms(3) by auto
  then show ?thesis
    using assms Cons by (simp add: handle_json_def dispatch_def)
qed

text \<open>
  Claim C9. Let an active session's draining task receive \<^verbatim>\<open>{"event": ev}\<close> where the
  object \<open>ev\<close> has none of the keys \<^verbatim>\<open>contentStart\<close>, \<^verbatim>\<open>textOutput\<close> and
  \<^verbatim>\<open>audioOutput\<close> (the empty object included). The loop goes on with the next frame from a
  state that differs by one log line only; a task that got nothing else is still running, so
  nothing was raised; the sink calls and the active flag are as before.
\<close>
theorem unrecognised_event_ignored:
  assumes "is_active s"
    and "''contentStart'' \<notin> set (map fst kvs)" and "''textOutput'' \<notin> set (map fst kvs)"
    and "''audioOutput'' \<notin> set (map fst kvs)"
  shows "drain_loop cb role (Recv_json (JObj [(''event'', JObj kvs)]) # rs) s
           = drain_loop cb role rs (log_info (''Event: '' @ first_key kvs) s)
       \<and> process_responses cb [Recv_json (JObj [(''event'', JObj kvs)])] s
           = (Task_running, log_info (''Event: '' @ first_key kvs) s)
       \<and> sink_calls (log_info (''Event: '' @ first_key kvs) s) = sink_calls s
       \<and> is_active (log_info (''Event: '' @ first_key kvs) s) = is_active s"
  using assms(1) handle_unrecognised [OF assms(2-4)]
  by (simp add: process_responses_def task_body_def after_loop_def on_receive_def log_info_def)

theorem unrecognised_event_ignored_witness:
  "is_active (snd (start default_env fresh))
   \<and> process_responses (\<lambda>bs. None)
        [Recv_json (JObj [(''event'', JObj [(''usageEvent'', JObj [(''totalTokens'', JInt 12)])])])]
        (snd (start default_env fresh))
       = (Task_running, log_info ''Event: usageEvent'' (snd (start default_env fresh)))
   \<and> process_responses (\<lambda>bs. None) [Recv_json (JObj [(''event'', JObj [])])]
        (snd (start default_env fresh))
       = (Task_running, log_info ''Event: unknown'' (snd (start default_env fresh)))"
proof -
  note t = unrecognised_event_ignored [where s = "snd (start default_env fresh)"
      and kvs = "[(''usageEvent'', JObj [(''totalTokens'', JInt 12)])]" and cb = "\<lambda>bs. None"
      and rs = "[]" and role = JNull, OF started_active]
  note u = unrecognised_event_ignored [where s = "snd (start default_env fresh)"
      and kvs = "[]" and cb = "\<lambda>bs. None" and rs = "[]" and role = JNull, OF started_active]
  have a: "process_responses (\<lambda>bs. None)
        [Recv_json (JObj [(''event'', JObj [(''usageEvent'', JObj [(''totalTokens'', JInt 12)])])])]
        (snd (start default_env fresh))
       = (Task_running, log_info ''Event: usageEvent'' (snd (start default_env fresh)))"
    using t by simp
  have b: "process_responses (\<lambda>bs. None) [Recv_json (JObj [(''event'', JObj [])])]
        (snd (start default_env fresh))
       = (Task_running, log_info ''Event: unknown'' (snd (start default_env fresh)))"
    using u by simp
  show ?thesis using started_active a b by (intro conjI)
qed

end
